theory Spec2Isabelle
  imports Main "HOL-Library.Char_ord" "HOL-Library.List_Lexorder" "HOL-Library.Multiset"
begin

section \<open>Strings and character classes\<close>

text \<open>
  A JavaScript string is modelled as a \<^typ>\<open>string\<close>: a list of code units, each below 256
  (the Latin-1 range of UTF-16). Code units from 256 on (among them the white space and
  line terminators beyond U+00FF) are outside the model.
\<close>

definition LF :: char where "LF = CHR 0x0A"
definition CR :: char where "CR = CHR 0x0D"

text \<open>The regex class \<^verbatim>\<open>\s\<close>, which is also what \<^verbatim>\<open>String.prototype.trim\<close> strips:
  TAB, LF, VT, FF, CR, SPACE and NBSP.\<close>

definition is_space :: "char \<Rightarrow> bool" where
  "is_space c = (c \<in> set [CHR 0x09, CHR 0x0A, CHR 0x0B, CHR 0x0C, CHR 0x0D, CHR 0x20, CHR 0xA0])"

text \<open>The regex class \<^verbatim>\<open>\d\<close>.\<close>

definition is_digit :: "char \<Rightarrow> bool" where
  "is_digit c = (c \<in> set ''0123456789'')"

text \<open>The regex class \<^verbatim>\<open>\w\<close>, which decides the word boundary \<^verbatim>\<open>\b\<close>.\<close>

definition is_word :: "char \<Rightarrow> bool" where
  "is_word c = (c \<in> set ''abcdefghijklmnopqrstuvwxyzABCDEFGHIJKLMNOPQRSTUVWXYZ0123456789_'')"

text \<open>The regex atom \<^verbatim>\<open>.\<close> matches every code unit except a line terminator.\<close>

definition is_dot :: "char \<Rightarrow> bool" where
  "is_dot c = (c \<noteq> LF \<and> c \<noteq> CR)"

definition is_chr :: "char \<Rightarrow> char \<Rightarrow> bool" where
  "is_chr a c = (c = a)"

text \<open>\<^verbatim>\<open>s.trim()\<close>\<close>

definition trim :: "string \<Rightarrow> string" where
  "trim s = rev (dropWhile is_space (rev (dropWhile is_space s)))"

text \<open>\<^verbatim>\<open>s.startsWith(p)\<close>\<close>

definition startsWith :: "string \<Rightarrow> string \<Rightarrow> bool" where
  "startsWith s p = (take (length p) s = p)"

text \<open>\<^verbatim>\<open>/\s$/.test(s)\<close> and \<^verbatim>\<open>/^\s/.test(s)\<close>\<close>

definition endsWithSpace :: "string \<Rightarrow> bool" where
  "endsWithSpace s = (case rev s of [] \<Rightarrow> False | c # _ \<Rightarrow> is_space c)"

definition startsWithSpace :: "string \<Rightarrow> bool" where
  "startsWithSpace s = (case s of [] \<Rightarrow> False | c # _ \<Rightarrow> is_space c)"

text \<open>
  A regex that is a fixed sequence of character classes is a list of predicates;
  \<open>matchSeq ps s\<close> matches it at the start of \<open>s\<close> and returns what follows the match.
\<close>

fun matchSeq :: "(char \<Rightarrow> bool) list \<Rightarrow> string \<Rightarrow> string option" where
  "matchSeq [] s = Some s"
| "matchSeq (p # ps) [] = None"
| "matchSeq (p # ps) (c # cs) = (if p c then matchSeq ps cs else None)"

section \<open>The range parser\<close>

text \<open>\<^verbatim>\<open>\d{4}-\d{2}-\d{2}\<close>\<close>

definition datePattern :: "(char \<Rightarrow> bool) list" where
  "datePattern = replicate 4 is_digit @ [is_chr (CHR ''-'')] @ replicate 2 is_digit
     @ [is_chr (CHR ''-'')] @ replicate 2 is_digit"

text \<open>\<^verbatim>\<open>\d{2}:\d{2}\<close> and the optional group \<^verbatim>\<open>(?::\d{2})?\<close>\<close>

definition hhmmPattern :: "(char \<Rightarrow> bool) list" where
  "hhmmPattern = replicate 2 is_digit @ [is_chr (CHR '':'')] @ replicate 2 is_digit"

definition secondsPattern :: "(char \<Rightarrow> bool) list" where
  "secondsPattern = [is_chr (CHR '':'')] @ replicate 2 is_digit"

text \<open>
  The capture group \<^verbatim>\<open>(\d{2}:\d{2}(?::\d{2})?)\<close> at the start of \<open>s\<close>: the pairs
  (captured text, text after it) in the order the backtracking matcher tries them, the
  greedy choice (with seconds) first.
\<close>

definition timeGroup :: "string \<Rightarrow> (string \<times> string) list" where
  "timeGroup s =
     (case matchSeq hhmmPattern s of
        None \<Rightarrow> []
      | Some r \<Rightarrow>
          (case matchSeq secondsPattern r of
             None \<Rightarrow> [(take 5 s, r)]
           | Some r' \<Rightarrow> [(take 8 s, r'), (take 5 s, r)]))"

text \<open>The first alternative, in the matcher's order, that lets the rest of the regex match.\<close>

fun firstMatch :: "('a \<Rightarrow> 'b option) \<Rightarrow> 'a list \<Rightarrow> 'b option" where
  "firstMatch f [] = None"
| "firstMatch f (x # xs) = (case f x of Some y \<Rightarrow> Some y | None \<Rightarrow> firstMatch f xs)"

text \<open>\<^verbatim>\<open>rest.match(/^-(\d{2}:\d{2}(?::\d{2})?)$/)\<close>, giving capture 1\<close>

definition matchToOnly :: "string \<Rightarrow> string option" where
  "matchToOnly rest =
     (case rest of
        [] \<Rightarrow> None
      | c # r \<Rightarrow> if c = CHR ''-''
                 then firstMatch (\<lambda>(t, r'). if r' = [] then Some t else None) (timeGroup r)
                 else None)"

text \<open>\<^verbatim>\<open>rest.match(/^(\d{2}:\d{2}(?::\d{2})?)-$/)\<close>, giving capture 1\<close>

definition matchFromOnly :: "string \<Rightarrow> string option" where
  "matchFromOnly rest =
     firstMatch (\<lambda>(t, r'). if r' = ''-'' then Some t else None) (timeGroup rest)"

text \<open>\<^verbatim>\<open>rest.match(/^(\d{2}:\d{2}(?::\d{2})?)-(\d{2}:\d{2}(?::\d{2})?)$/)\<close>, giving
  captures 1 and 2. \<open>matchRangeTail t1 r1\<close> is the regex from the dash on, tried after
  capture 1 took \<open>t1\<close> and left \<open>r1\<close>.\<close>

definition matchRangeTail :: "string \<Rightarrow> string \<Rightarrow> (string \<times> string) option" where
  "matchRangeTail t1 r1 =
     (case r1 of
        [] \<Rightarrow> None
      | c # r2 \<Rightarrow> if c = CHR ''-''
                  then firstMatch (\<lambda>(t2, r'). if r' = [] then Some (t1, t2) else None)
                         (timeGroup r2)
                  else None)"

definition matchRange :: "string \<Rightarrow> (string \<times> string) option" where
  "matchRange rest = firstMatch (\<lambda>(t1, r1). matchRangeTail t1 r1) (timeGroup rest)"

text \<open>\<^verbatim>\<open>rest.match(/^(\d{2}:\d{2}(?::\d{2})?)$/)\<close>, giving capture 1\<close>

definition matchSingle :: "string \<Rightarrow> string option" where
  "matchSingle rest =
     firstMatch (\<lambda>(t, r'). if r' = [] then Some t else None) (timeGroup rest)"

definition ensureSeconds :: "string \<Rightarrow> string" where
  "ensureSeconds time = (if length time = 5 then time @ '':00'' else time)"

text \<open>
  \<open>parseFromTo\<close> returns the pair (from, to). The date is capture 1 of
  \<^verbatim>\<open>/^(\d{4}-\d{2}-\d{2})/\<close> on the trimmed input, the ten code units it matched.
\<close>

definition parseFromTo :: "string \<Rightarrow> string \<times> string" where
  "parseFromTo timeLog =
     (let trimmed = trim timeLog in
      case matchSeq datePattern trimmed of
        None \<Rightarrow> ([], [])
      | Some _ \<Rightarrow>
          (let date = take 10 trimmed;
               rest = trim (drop (length date) trimmed) in
           case matchToOnly rest of
             Some t \<Rightarrow> ([], date @ '' '' @ ensureSeconds t)
           | None \<Rightarrow>
          (case matchFromOnly rest of
             Some t \<Rightarrow> (date @ '' '' @ ensureSeconds t, [])
           | None \<Rightarrow>
          (case matchRange rest of
             Some (t1, t2) \<Rightarrow> (date @ '' '' @ ensureSeconds t1, date @ '' '' @ ensureSeconds t2)
           | None \<Rightarrow>
          (case matchSingle rest of
             Some t \<Rightarrow> ([], date @ '' '' @ ensureSeconds t)
           | None \<Rightarrow> ([], []))))))"

section \<open>The marker grammar\<close>

text \<open>
  The marker regex \<^verbatim>\<open>/\[time-logs::(.*?)\]/\<close>. \<open>markerTail\<close> is its part
  \<^verbatim>\<open>(.*?)\]\<close> at the start of a string: the lazy group first tries to stop (a
  \<^verbatim>\<open>]\<close> follows) and otherwise takes one more code unit, never a line terminator.
  It returns capture 1 and the text after the match.
\<close>

fun markerTail :: "string \<Rightarrow> (string \<times> string) option" where
  "markerTail [] = None"
| "markerTail (c # cs) =
     (if c = CHR '']'' then Some ([], cs)
      else if is_dot c then map_option (\<lambda>(inner, after). (c # inner, after)) (markerTail cs)
      else None)"

definition markerOpen :: string where
  "markerOpen = ''[time-logs::''"

definition matchMarkerAt :: "string \<Rightarrow> (string \<times> string) option" where
  "matchMarkerAt s =
     (if startsWith s markerOpen then markerTail (drop (length markerOpen) s) else None)"

text \<open>
  \<^verbatim>\<open>line.match(timeLogsRegex)\<close>: the leftmost position where the regex matches. The result
  is (text before the match, capture 1, text after the match); \<open>None\<close> is JavaScript's
  \<^verbatim>\<open>null\<close>.
\<close>

fun findMarker :: "string \<Rightarrow> (string \<times> string \<times> string) option" where
  "findMarker [] = None"
| "findMarker (c # cs) =
     (case matchMarkerAt (c # cs) of
        Some (inner, after) \<Rightarrow> Some ([], inner, after)
      | None \<Rightarrow> map_option (\<lambda>(before, inner, after). (c # before, inner, after)) (findMarker cs))"

definition containsTimeLogs :: "string \<Rightarrow> bool" where
  "containsTimeLogs line = (findMarker line \<noteq> None)"

text \<open>
  \<^verbatim>\<open>/^\s*-\s\[\s\]\s/.test(line)\<close>. The greedy \<^verbatim>\<open>\s*\<close> is followed by a code unit
  that is not white space, so only its longest match can succeed: \<open>dropWhile\<close>.
\<close>

definition isUncheckedTaskLine :: "string \<Rightarrow> bool" where
  "isUncheckedTaskLine line =
     (matchSeq [is_chr (CHR ''-''), is_space, is_chr (CHR ''[''), is_space, is_chr (CHR '']''),
        is_space] (dropWhile is_space line) \<noteq> None)"

text \<open>\<^verbatim>\<open>/^\s*-\s\[\s*[xX]\s*\]\s/.test(line)\<close>\<close>

definition isCheckedTaskLine :: "string \<Rightarrow> bool" where
  "isCheckedTaskLine line =
     (case matchSeq [is_chr (CHR ''-''), is_space, is_chr (CHR ''['')] (dropWhile is_space line) of
        None \<Rightarrow> False
      | Some r1 \<Rightarrow>
          (case matchSeq [\<lambda>c. c = CHR ''x'' \<or> c = CHR ''X''] (dropWhile is_space r1) of
             None \<Rightarrow> False
           | Some r2 \<Rightarrow> matchSeq [is_chr (CHR '']''), is_space] (dropWhile is_space r2) \<noteq> None))"

section \<open>The line mutator\<close>

text \<open>
  \<^verbatim>\<open>line.search(/\[[^\[\]\n]*\s*::\s*[^\[\]\n]*\]/)\<close>. One function for each piece of the
  regex, each deciding whether the regex from that piece on matches at the start of the
  string; a starred piece either stops or takes one more code unit of its class.
\<close>

definition is_dvChar :: "char \<Rightarrow> bool" where
  "is_dvChar c = (c \<noteq> CHR ''['' \<and> c \<noteq> CHR '']'' \<and> c \<noteq> LF)"

fun dvClose :: "string \<Rightarrow> bool" where
  "dvClose [] = False"
| "dvClose (c # cs) = (c = CHR '']'' \<or> (is_dvChar c \<and> dvClose cs))"

fun dvSpace2 :: "string \<Rightarrow> bool" where
  "dvSpace2 [] = dvClose []"
| "dvSpace2 (c # cs) = (dvClose (c # cs) \<or> (is_space c \<and> dvSpace2 cs))"

definition dvColons :: "string \<Rightarrow> bool" where
  "dvColons s = (startsWith s ''::'' \<and> dvSpace2 (drop 2 s))"

fun dvSpace1 :: "string \<Rightarrow> bool" where
  "dvSpace1 [] = dvColons []"
| "dvSpace1 (c # cs) = (dvColons (c # cs) \<or> (is_space c \<and> dvSpace1 cs))"

fun dvKey :: "string \<Rightarrow> bool" where
  "dvKey [] = dvSpace1 []"
| "dvKey (c # cs) = (dvSpace1 (c # cs) \<or> (is_dvChar c \<and> dvKey cs))"

definition dvMatchAt :: "string \<Rightarrow> bool" where
  "dvMatchAt s = (case s of [] \<Rightarrow> False | c # cs \<Rightarrow> c = CHR ''['' \<and> dvKey cs)"

text \<open>The leftmost position from \<open>i\<close> on where the regex matches, or \<open>-1\<close>.\<close>

fun dvSearchFrom :: "nat \<Rightarrow> string \<Rightarrow> int" where
  "dvSearchFrom i [] = -1"
| "dvSearchFrom i (c # cs) = (if dvMatchAt (c # cs) then int i else dvSearchFrom (Suc i) cs)"

definition findFirstInlineDataviewIndex :: "string \<Rightarrow> int" where
  "findFirstInlineDataviewIndex line = dvSearchFrom 0 line"

text \<open>\<^verbatim>\<open>line.length > 0 && !/\s$/.test(line) ? ' ' : ''\<close>\<close>

definition separator :: "string \<Rightarrow> string" where
  "separator line = (if length line > 0 \<and> \<not> endsWithSpace line then '' '' else [])"

definition insertBeforeInlineDataview :: "string \<Rightarrow> string \<Rightarrow> string" where
  "insertBeforeInlineDataview line insertion =
     (let idx = findFirstInlineDataviewIndex line in
      if idx = -1 then line @ separator line @ insertion
      else
        (let before = take (nat idx) line;
             after = drop (nat idx) line;
             sepBefore = (if length before > 0 \<and> \<not> endsWithSpace before then '' '' else []);
             sepAfter = (if length after > 0 \<and> \<not> startsWithSpace after then '' '' else [])
         in before @ sepBefore @ insertion @ sepAfter @ after))"

text \<open>
  \<open>appendTimeLogToLine\<close>. With a marker on the line, \<^verbatim>\<open>line.replace\<close> puts the callback's
  result in place of the match and keeps the text before and after it.
\<close>

definition appendTimeLogToLine :: "string \<Rightarrow> string \<Rightarrow> string" where
  "appendTimeLogToLine line currentTime =
     (case findMarker line of
        Some (before, inner, after) \<Rightarrow>
          (let existingLogs = trim inner;
               newLogs = (if existingLogs \<noteq> [] then existingLogs @ '' '' @ currentTime @ '';''
                          else '' '' @ currentTime @ '';'')
           in before @ ''[time-logs::'' @ newLogs @ '' ]'' @ after)
      | None \<Rightarrow>
          (let dvIndex = findFirstInlineDataviewIndex line;
               timeLogEntry = ''[time-logs:: '' @ currentTime @ ''; ]''
           in if dvIndex \<noteq> -1 then insertBeforeInlineDataview line timeLogEntry
              else line @ separator line @ timeLogEntry))"

section \<open>The current time\<close>

text \<open>
  What \<open>getCurrentFormattedTime\<close> reads from \<^verbatim>\<open>new Date()\<close>: the local year, the month as
  \<^verbatim>\<open>getMonth()\<close> returns it (0 to 11), the day of the month, hours and minutes.
\<close>

record datetime =
  fullYear :: nat
  month :: nat
  date :: nat
  hours :: nat
  minutes :: nat

definition digitChar :: "nat \<Rightarrow> char" where
  "digitChar d = ''0123456789'' ! d"

text \<open>\<^verbatim>\<open>String(n)\<close> for a natural number: its decimal digits.\<close>

fun showNat :: "nat \<Rightarrow> string" where
  "showNat n = (if n < 10 then [digitChar n] else showNat (n div 10) @ [digitChar (n mod 10)])"

declare showNat.simps [simp del]

text \<open>\<^verbatim>\<open>s.padStart(2, '0')\<close>\<close>

definition padStart2 :: "string \<Rightarrow> string" where
  "padStart2 s = replicate (2 - length s) (CHR ''0'') @ s"

definition getCurrentFormattedTime :: "datetime \<Rightarrow> string" where
  "getCurrentFormattedTime now =
     showNat (fullYear now) @ ''-'' @ padStart2 (showNat (month now + 1)) @ ''-''
       @ padStart2 (showNat (date now)) @ '' -'' @ padStart2 (showNat (hours now)) @ '':''
       @ padStart2 (showNat (minutes now))"

section \<open>Auto-detection of task completion\<close>

text \<open>
  \<^verbatim>\<open>content.split(/\r?\n/)\<close>: a line ends at LF or at CR LF; a CR that no LF follows stays
  in its line. The result always has at least one line.
\<close>

fun consHead :: "char \<Rightarrow> string list \<Rightarrow> string list" where
  "consHead c [] = [[c]]"
| "consHead c (l # ls) = (c # l) # ls"

fun splitLines :: "string \<Rightarrow> string list" where
  "splitLines [] = [[]]"
| "splitLines [c] = (if c = LF then [[], []] else [[c]])"
| "splitLines (c # d # cs) =
     (if c = LF then [] # splitLines (d # cs)
      else if c = CR \<and> d = LF then [] # splitLines cs
      else consHead c (splitLines (d # cs)))"

text \<open>\<^verbatim>\<open>parts.join(sep)\<close>\<close>

fun join :: "string \<Rightarrow> string list \<Rightarrow> string" where
  "join sep [] = []"
| "join sep [x] = x"
| "join sep (x # y # ys) = x @ sep @ join sep (y # ys)"

text \<open>
  One round of the loop of \<open>addTimeLogForDoneTasks\<close> at index \<open>i\<close>, on the state
  (\<open>currLines\<close>, \<open>changed\<close>). The clock is read when a line is logged; \<open>clock i\<close> is what it
  shows when line \<open>i\<close> is.
\<close>

definition doneTaskStep ::
  "(nat \<Rightarrow> datetime) \<Rightarrow> string list \<Rightarrow> nat \<Rightarrow> string list \<times> bool \<Rightarrow> string list \<times> bool" where
  "doneTaskStep clock prevLines i st =
     (let (currLines, changed) = st;
          before = prevLines ! i;
          after = currLines ! i
      in if before = after then (currLines, changed)
         else if isUncheckedTaskLine before \<and> isCheckedTaskLine after \<and> \<not> containsTimeLogs after
           then (currLines[i := appendTimeLogToLine after (getCurrentFormattedTime (clock i))], True)
         else (currLines, changed))"

text \<open>The loop \<^verbatim>\<open>for (let i = 0; i < minLen; i++)\<close>, giving the final (\<open>currLines\<close>,
  \<open>changed\<close>).\<close>

definition doneTaskLoop ::
  "(nat \<Rightarrow> datetime) \<Rightarrow> string list \<Rightarrow> string list \<Rightarrow> string list \<times> bool" where
  "doneTaskLoop clock prevLines currLines =
     (let minLen = min (length prevLines) (length currLines)
      in fold (doneTaskStep clock prevLines) [0..<minLen] (currLines, False))"

definition addTimeLogForDoneTasks :: "(nat \<Rightarrow> datetime) \<Rightarrow> string \<Rightarrow> string \<Rightarrow> string" where
  "addTimeLogForDoneTasks clock previousContent newContent =
     (let prevLines = splitLines previousContent;
          currLines = splitLines newContent;
          (currLines', changed) = doneTaskLoop clock prevLines currLines
      in if changed then join [LF] currLines' else newContent)"

section \<open>The corpus extractor\<close>

text \<open>A row \<^verbatim>\<open>{task, from, to, file, line}\<close>; the fields carry the prefix \<open>r\<close>.\<close>

record row =
  rtask :: string
  rfrom :: string
  rto :: string
  rfile :: string
  rline :: nat

text \<open>\<^verbatim>\<open>s.split(';')\<close>\<close>

fun splitOn :: "char \<Rightarrow> string \<Rightarrow> string list" where
  "splitOn d [] = [[]]"
| "splitOn d (c # cs) = (if c = d then [] # splitOn d cs else consHead c (splitOn d cs))"

text \<open>
  \<^verbatim>\<open>/\b\d{4}-\d{2}-\d{2}\b/.test(s)\<close>. The date begins and ends with a digit, a word
  character, so the first \<^verbatim>\<open>\b\<close> holds when no word character stands before the date and
  the second when none follows it. \<open>prevWord\<close> says whether a word character stands before
  the current position.
\<close>

fun dateRegexFrom :: "bool \<Rightarrow> string \<Rightarrow> bool" where
  "dateRegexFrom prevWord [] = False"
| "dateRegexFrom prevWord (c # cs) =
     ((\<not> prevWord \<and>
        (case matchSeq datePattern (c # cs) of
           None \<Rightarrow> False
         | Some r \<Rightarrow> (case r of [] \<Rightarrow> True | d # _ \<Rightarrow> \<not> is_word d)))
      \<or> dateRegexFrom (is_word c) cs)"

definition dateRegexTest :: "string \<Rightarrow> bool" where
  "dateRegexTest s = dateRegexFrom False s"

definition normalizeTaskText :: "string \<Rightarrow> string" where
  "normalizeTaskText text =
     (let normalized = text;
          normalized = (if startsWith normalized ''- [ ]'' then trim (drop 5 normalized)
                        else normalized);
          normalized = (if startsWith normalized ''- [x]'' \<or> startsWith normalized ''- [X]''
                        then trim (drop 5 normalized) else normalized)
      in normalized)"

text \<open>The entries of a marker's inner text: split at \<^verbatim>\<open>;\<close>, trim, drop the empty pieces.\<close>

definition timeLogEntries :: "string \<Rightarrow> string list" where
  "timeLogEntries timeLogsRaw =
     filter (\<lambda>s. length s > 0) (map trim (splitOn (CHR '';'') timeLogsRaw))"

text \<open>The rows one line contributes; \<open>i\<close> is the line's index from 0.\<close>

definition lineRows :: "string \<Rightarrow> nat \<Rightarrow> string \<Rightarrow> row list" where
  "lineRows path i line =
     (case findMarker line of
        None \<Rightarrow> []
      | Some (before, inner, after) \<Rightarrow>
          (let timeLogsRaw = trim inner in
           if timeLogsRaw = [] then []
           else
             (let taskTextRaw = trim (before @ after);
                  taskText = normalizeTaskText taskTextRaw;
                  timeLogs = timeLogEntries timeLogsRaw
              in map (\<lambda>timeLog.
                     (let (f, t) = parseFromTo timeLog
                      in \<lparr>rtask = taskText, rfrom = f, rto = t, rfile = path, rline = i + 1\<rparr>))
                   (filter dateRegexTest timeLogs))))"

text \<open>The rows in discovery order: file by file, line by line, entry by entry. A file is
  its path and its content.\<close>

definition fileRows :: "string \<times> string \<Rightarrow> row list" where
  "fileRows f =
     concat (map (\<lambda>(i, line). lineRows (fst f) i line) (enumerate 0 (splitLines (snd f))))"

definition discoverRows :: "(string \<times> string) list \<Rightarrow> row list" where
  "discoverRows markdownFiles = concat (map fileRows markdownFiles)"

text \<open>\<^verbatim>\<open>a.from || a.to || ''\<close>\<close>

definition rowKey :: "row \<Rightarrow> string" where
  "rowKey a = (if rfrom a \<noteq> [] then rfrom a else if rto a \<noteq> [] then rto a else [])"

text \<open>
  \<^verbatim>\<open>Array.prototype.sort\<close> with a comparator is a stable sort; for a comparator that is
  consistent on the elements every stable sort returns the same list. It is rendered as
  insertion from the right: an element goes before the first one it does not compare
  greater than.
\<close>

fun insertBy :: "('a \<Rightarrow> 'a \<Rightarrow> int) \<Rightarrow> 'a \<Rightarrow> 'a list \<Rightarrow> 'a list" where
  "insertBy cmp x [] = [x]"
| "insertBy cmp x (y # ys) = (if cmp x y \<le> 0 then x # y # ys else y # insertBy cmp x ys)"

definition sortBy :: "('a \<Rightarrow> 'a \<Rightarrow> int) \<Rightarrow> 'a list \<Rightarrow> 'a list" where
  "sortBy cmp xs = foldr (insertBy cmp) xs []"

text \<open>
  \<open>collectTimeLogRows\<close>. \<open>localeCompare\<close> is the host's \<^verbatim>\<open>String.prototype.localeCompare\<close>,
  which is not part of the repository: it is a parameter.
\<close>

definition collectTimeLogRows ::
  "(string \<Rightarrow> string \<Rightarrow> int) \<Rightarrow> (string \<times> string) list \<Rightarrow> row list" where
  "collectTimeLogRows localeCompare markdownFiles =
     sortBy (\<lambda>a b. localeCompare (rowKey a) (rowKey b)) (discoverRows markdownFiles)"

section \<open>The CSV encoding\<close>

definition DQ :: char where "DQ = CHR 0x22"

text \<open>\<^verbatim>\<open>value.replace(/"/g, '""')\<close>\<close>

definition doubleQuotes :: "string \<Rightarrow> string" where
  "doubleQuotes v = concat (map (\<lambda>c. if c = DQ then [DQ, DQ] else [c]) v)"

definition csvEscape :: "string \<Rightarrow> string" where
  "csvEscape v =
     (let mustQuote = (\<exists>c \<in> set v. c = DQ \<or> c = CHR '','' \<or> c = LF);
          escaped = doubleQuotes v
      in if mustQuote then [DQ] @ escaped @ [DQ] else escaped)"

definition createCsvContent :: "row list \<Rightarrow> string" where
  "createCsvContent rows =
     (let header = [''Task'', ''From'', ''To'', ''File'', ''Line''];
          csvRows = header # map (\<lambda>r. [rtask r, rfrom r, rto r, rfile r, showNat (rline r)]) rows
      in join [LF] (map (\<lambda>cols. join '','' (map csvEscape cols)) csvRows))"

section \<open>Specification vocabulary\<close>

text \<open>
  The shapes the specification names are written as pictures: in a picture the letter
  \<open>d\<close> stands for one decimal digit and every other character for itself, so
  \<open>shape ''dd:dd'' s\<close> says that \<open>s\<close> is \<^verbatim>\<open>HH:MM\<close>.
\<close>

definition picClass :: "char \<Rightarrow> char \<Rightarrow> bool" where
  "picClass p c = (if p = CHR ''d'' then is_digit c else c = p)"

definition shape :: "string \<Rightarrow> string \<Rightarrow> bool" where
  "shape pic s = list_all2 picClass pic s"

text \<open>A time of day as the entry grammar writes it: \<^verbatim>\<open>HH:MM\<close> or \<^verbatim>\<open>HH:MM:SS\<close>.\<close>

definition isTime :: "string \<Rightarrow> bool" where
  "isTime t = (shape ''dd:dd'' t \<or> shape ''dd:dd:dd'' t)"

text \<open>A well-formed timestamp: exactly \<^verbatim>\<open>YYYY-MM-DD HH:MM:SS\<close>, 19 code units.\<close>

definition isTimestamp :: "string \<Rightarrow> bool" where
  "isTimestamp s = (length s = 19 \<and> shape ''dddd-dd-dd dd:dd:dd'' s)"

text \<open>
  The range parser as the specification words it (section 4.4). White space around the
  entry text does not count: the text is read trimmed, as every entry the extractor hands
  over already is. The four shapes are tried in the specification's order.
\<close>

definition withSeconds :: "string \<Rightarrow> string" where
  "withSeconds t = (if shape ''dd:dd'' t then t @ '':00'' else t)"

definition toOnlyShape :: "string \<Rightarrow> bool" where
  "toOnlyShape r = (shape ''-dd:dd'' r \<or> shape ''-dd:dd:dd'' r)"

definition fromOnlyShape :: "string \<Rightarrow> bool" where
  "fromOnlyShape r = (shape ''dd:dd-'' r \<or> shape ''dd:dd:dd-'' r)"

definition rangeShape :: "string \<Rightarrow> bool" where
  "rangeShape r = (shape ''dd:dd-dd:dd'' r \<or> shape ''dd:dd:dd-dd:dd'' r \<or>
     shape ''dd:dd-dd:dd:dd'' r \<or> shape ''dd:dd:dd-dd:dd:dd'' r)"

definition parse_spec :: "string \<Rightarrow> string \<times> string" where
  "parse_spec entryText =
     (let text = trim entryText;
          date = take 10 text;
          remainder = trim (drop 10 text) in
      if \<not> shape ''dddd-dd-dd'' date then ([], [])
      else if toOnlyShape remainder then ([], date @ '' '' @ withSeconds (tl remainder))
      else if fromOnlyShape remainder then (date @ '' '' @ withSeconds (butlast remainder), [])
      else if rangeShape remainder
        then (date @ '' '' @ withSeconds (takeWhile (\<lambda>c. c \<noteq> CHR ''-'') remainder),
              date @ '' '' @ withSeconds (tl (dropWhile (\<lambda>c. c \<noteq> CHR ''-'') remainder)))
      else if isTime remainder then ([], date @ '' '' @ withSeconds remainder)
      else ([], []))"

text \<open>
  The CSV encoding as the specification words it (section 6): a field is wrapped in double
  quotes if it contains a comma, a double quote or a newline, with every embedded double
  quote doubled, and is emitted as it is otherwise; fields are separated by commas.
\<close>

fun doubled :: "string \<Rightarrow> string" where
  "doubled [] = []"
| "doubled (c # cs) = (if c = DQ then DQ # DQ # doubled cs else c # doubled cs)"

definition needsQuotes :: "string \<Rightarrow> bool" where
  "needsQuotes v = (CHR '','' \<in> set v \<or> DQ \<in> set v \<or> LF \<in> set v)"

definition csvFieldSpec :: "string \<Rightarrow> string" where
  "csvFieldSpec v = (if needsQuotes v then [DQ] @ doubled v @ [DQ] else v)"

definition csvRecordSpec :: "string list \<Rightarrow> string" where
  "csvRecordSpec cols =
     (case cols of
        [] \<Rightarrow> []
      | f # fs \<Rightarrow> csvFieldSpec f @ concat (map (\<lambda>g. '','' @ csvFieldSpec g) fs))"

text \<open>
  Plain lexicographic comparison of strings by code unit, as a three-way comparator: the
  order \<open>\<le>\<close> on \<^typ>\<open>string\<close> compares the first differing code unit, and a proper
  prefix is smaller.
\<close>

definition codeUnitCompare :: "string \<Rightarrow> string \<Rightarrow> int" where
  "codeUnitCompare a b = (if a < b then -1 else if a = b then 0 else 1)"

text \<open>A sort key that can occur: empty, or a well-formed timestamp.\<close>

definition isKey :: "string \<Rightarrow> bool" where
  "isKey k = (k = [] \<or> isTimestamp k)"

text \<open>The raw entries of a line and of a corpus, in discovery order: the pieces of the first
  marker's inner text, trimmed, the empty ones dropped.\<close>

definition lineEntries :: "string \<Rightarrow> string list" where
  "lineEntries ln =
     (case findMarker ln of None \<Rightarrow> [] | Some (before, inner, after) \<Rightarrow> timeLogEntries (trim inner))"

definition corpusEntries :: "(string \<times> string) list \<Rightarrow> string list" where
  "corpusEntries markdownFiles =
     concat (map (\<lambda>f. concat (map lineEntries (splitLines (snd f)))) markdownFiles)"

text \<open>Whether the open token of the marker occurs in a string.\<close>

fun hasOpen :: "string \<Rightarrow> bool" where
  "hasOpen [] = False"
| "hasOpen (c # cs) = (startsWith (c # cs) markerOpen \<or> hasOpen cs)"

text \<open>
  A timestamp as the mutator is given it is a plain entry: not empty, without surrounding
  white space, and free of the delimiter, of brackets and of line terminators.
\<close>

definition plainChar :: "char \<Rightarrow> bool" where
  "plainChar c = (c \<noteq> CHR '';'' \<and> c \<noteq> CHR ''['' \<and> c \<noteq> CHR '']'' \<and> is_dot c)"

definition plainEntry :: "string \<Rightarrow> bool" where
  "plainEntry t = (t \<noteq> [] \<and> trim t = t \<and> list_all plainChar t)"

text \<open>
  The append rule of the marker grammar (section 4.1): the new inner text is the trimmed
  existing text and a space, or a single space when that is empty, then the new entry,
  the delimiter and a space.
\<close>

definition appendEntry :: "string \<Rightarrow> string \<Rightarrow> string" where
  "appendEntry inner t =
     (if trim inner \<noteq> [] then trim inner @ '' '' else '' '') @ t @ '';'' @ '' ''"

text \<open>The inner text of a marker is closed when, trimmed, it is empty or ends with the
  delimiter; every inner text the mutator writes is.\<close>

definition closedInner :: "string \<Rightarrow> bool" where
  "closedInner inner = (trim inner = [] \<or> last (trim inner) = CHR '';'')"

definition markerChar :: "char \<Rightarrow> bool" where
  "markerChar c = (c \<noteq> CHR ''['' \<and> c \<noteq> CHR '']'' \<and> is_dot c)"

text \<open>The line after the mutator was called once for each timestamp, in call order.\<close>

definition mutateAll :: "string list \<Rightarrow> string \<Rightarrow> string" where
  "mutateAll ts ln = fold (\<lambda>t l. appendTimeLogToLine l t) ts ln"

text \<open>The entries of the marker of a line, if it has one.\<close>

definition markerEntries :: "string \<Rightarrow> string list option" where
  "markerEntries ln =
     (case findMarker ln of
        None \<Rightarrow> None
      | Some (before, inner, after) \<Rightarrow> Some (timeLogEntries (trim inner)))"

text \<open>
  The transition rule of the auto-detection (section 4.3): line \<open>i\<close> triggers when it exists
  in both snapshots, the previous line is an unchecked task line, the new line is a
  checked task line and the new line has no marker yet.
\<close>

definition triggers :: "string list \<Rightarrow> string list \<Rightarrow> nat \<Rightarrow> bool" where
  "triggers prevLines currLines i =
     (i < length prevLines \<and> i < length currLines \<and>
      isUncheckedTaskLine (prevLines ! i) \<and> isCheckedTaskLine (currLines ! i) \<and>
      \<not> containsTimeLogs (currLines ! i))"

definition anyTrigger :: "string list \<Rightarrow> string list \<Rightarrow> bool" where
  "anyTrigger prevLines currLines = list_ex (triggers prevLines currLines) [0..<length currLines]"

text \<open>The lines the rule asks for: a line that triggers is given to the mutator with the
  time the clock shows for it, every other line passes through unchanged.\<close>

definition expectedLines :: "(nat \<Rightarrow> datetime) \<Rightarrow> string list \<Rightarrow> string list \<Rightarrow> string list" where
  "expectedLines clock prevLines currLines =
     map (\<lambda>i. if triggers prevLines currLines i
              then appendTimeLogToLine (currLines ! i) (getCurrentFormattedTime (clock i))
              else currLines ! i)
       [0..<length currLines]"

text \<open>A line without one carriage return at its end: what splitting a joined document
  makes of a line that ends with a carriage return.\<close>

definition chomp :: "string \<Rightarrow> string" where
  "chomp l = (if l \<noteq> [] \<and> last l = CR then butlast l else l)"

section \<open>Facts about the pattern matcher\<close>

lemma matchSeq_append:
  "matchSeq (ps @ qs) s = (case matchSeq ps s of None \<Rightarrow> None | Some r \<Rightarrow> matchSeq qs r)"
  by (induction ps s rule: matchSeq.induct) auto

lemma matchSeq_Some_split:
  "matchSeq ps s = Some r \<Longrightarrow> s = take (length ps) s @ r \<and> length s = length ps + length r"
  by (induction ps s rule: matchSeq.induct) (auto split: if_splits)

lemma matchSeq_take:
  "matchSeq ps s = Some r \<Longrightarrow> matchSeq ps (take (length ps) s) = Some []"
  by (induction ps s rule: matchSeq.induct) (auto split: if_splits)

lemma matchSeq_exact_append:
  "matchSeq ps a = Some [] \<Longrightarrow> matchSeq ps (a @ b) = Some b"
  by (induction ps a rule: matchSeq.induct) (auto split: if_splits)

lemma matchSeq_exact_length:
  "matchSeq ps a = Some [] \<Longrightarrow> length a = length ps"
  using matchSeq_Some_split by fastforce

lemma length_patterns [simp]:
  "length datePattern = 10" "length hhmmPattern = 5" "length secondsPattern = 3"
  by (simp_all add: datePattern_def hhmmPattern_def secondsPattern_def)

lemma patterns_unfold:
  "datePattern = map picClass ''dddd-dd-dd''"
  "hhmmPattern = map picClass ''dd:dd''"
  "secondsPattern = map picClass '':dd''"
  by (simp_all add: datePattern_def hhmmPattern_def secondsPattern_def fun_eq_iff
      picClass_def is_chr_def eval_nat_numeral)

lemma matchSeq_shape: "matchSeq (map picClass pic) s = Some [] \<longleftrightarrow> shape pic s"
proof (induction pic arbitrary: s)
  case Nil
  then show ?case by (cases s) (simp_all add: shape_def)
next
  case (Cons p pic)
  then show ?case by (cases s) (simp_all add: shape_def)
qed

lemma isTime_iff:
  "isTime t \<longleftrightarrow> matchSeq hhmmPattern t = Some [] \<or>
     matchSeq (hhmmPattern @ secondsPattern) t = Some []"
  using matchSeq_shape [of "''dd:dd''" t] matchSeq_shape [of "''dd:dd:dd''" t]
  by (simp add: isTime_def patterns_unfold)

lemma isTimestamp_iff:
  "isTimestamp s \<longleftrightarrow> length s = 19 \<and>
     matchSeq (datePattern @ [is_chr (CHR '' '')] @ hhmmPattern @ secondsPattern) s = Some []"
proof -
  have "is_chr (CHR '' '') = picClass (CHR '' '')"
    by (simp add: fun_eq_iff picClass_def is_chr_def)
  then show ?thesis
    using matchSeq_shape [of "''dddd-dd-dd dd:dd:dd''" s]
    by (simp add: isTimestamp_def patterns_unfold)
qed

lemma firstMatch_Some:
  "firstMatch f xs = Some y \<Longrightarrow> \<exists>x \<in> set xs. f x = Some y"
  by (induction xs) (auto split: option.splits)

section \<open>The range parser is total and its timestamps are well formed\<close>

lemma timeGroup_mem:
  assumes "(t, r) \<in> set (timeGroup s)"
  shows "s = t @ r \<and> isTime t"
proof (cases "matchSeq hhmmPattern s")
  case None
  with assms show ?thesis by (simp add: timeGroup_def)
next
  case (Some r1)
  note h = matchSeq_Some_split [OF Some] matchSeq_take [OF Some]
  show ?thesis
  proof (cases "matchSeq secondsPattern r1")
    case None
    with Some assms h show ?thesis by (auto simp: timeGroup_def isTime_iff)
  next
    case (Some r2)
    have full: "matchSeq (hhmmPattern @ secondsPattern) s = Some r2"
      using \<open>matchSeq hhmmPattern s = Some r1\<close> Some by (simp add: matchSeq_append)
    note f = matchSeq_Some_split [OF full] matchSeq_take [OF full]
    from assms \<open>matchSeq hhmmPattern s = Some r1\<close> Some
    consider "t = take 8 s" "r = r2" | "t = take 5 s" "r = r1"
      by (auto simp: timeGroup_def)
    then show ?thesis
    proof cases
      case 1 with f show ?thesis by (auto simp: isTime_iff)
    next
      case 2 with h show ?thesis by (auto simp: isTime_iff)
    qed
  qed
qed

lemma isTime_ensureSeconds:
  "isTime t \<Longrightarrow> matchSeq (hhmmPattern @ secondsPattern) (ensureSeconds t) = Some []"
  unfolding isTime_iff ensureSeconds_def
  apply (erule disjE)
  subgoal
    apply (frule matchSeq_exact_length)
    apply (simp add: matchSeq_append matchSeq_exact_append)
    apply (simp add: secondsPattern_def is_chr_def is_digit_def eval_nat_numeral)
    done
  subgoal
    apply (frule matchSeq_exact_length)
    apply simp
    done
  done

lemma stamp_wf:
  assumes d: "matchSeq datePattern d = Some []" and t: "isTime t"
  shows "isTimestamp (d @ '' '' @ ensureSeconds t)"
proof -
  have 1: "matchSeq (datePattern @ [is_chr (CHR '' '')] @ hhmmPattern @ secondsPattern)
      (d @ '' '' @ ensureSeconds t) = Some []"
    using d isTime_ensureSeconds [OF t]
    by (simp add: matchSeq_append matchSeq_exact_append is_chr_def
          del: append_assoc add: append_assoc [symmetric])
  have "length (ensureSeconds t) = 8"
    using isTime_ensureSeconds [OF t] matchSeq_exact_length by fastforce
  with 1 matchSeq_exact_length [OF d] show ?thesis by (simp add: isTimestamp_iff)
qed

lemma matchToOnly_isTime: "matchToOnly rest = Some t \<Longrightarrow> isTime t"
  by (auto simp: matchToOnly_def split: list.splits if_splits
      dest!: firstMatch_Some timeGroup_mem)

lemma matchFromOnly_isTime: "matchFromOnly rest = Some t \<Longrightarrow> isTime t"
  by (auto simp: matchFromOnly_def split: list.splits if_splits
      dest!: firstMatch_Some timeGroup_mem)

lemma matchSingle_isTime: "matchSingle rest = Some t \<Longrightarrow> isTime t"
  by (auto simp: matchSingle_def split: list.splits if_splits
      dest!: firstMatch_Some timeGroup_mem)

lemma matchRange_isTime: "matchRange rest = Some (t1, t2) \<Longrightarrow> isTime t1 \<and> isTime t2"
  by (auto simp: matchRange_def matchRangeTail_def split: list.splits if_splits
      dest!: firstMatch_Some timeGroup_mem)

lemma parseFromTo_fields:
  "(fst (parseFromTo s) = [] \<or> isTimestamp (fst (parseFromTo s))) \<and>
   (snd (parseFromTo s) = [] \<or> isTimestamp (snd (parseFromTo s)))"
proof (cases "matchSeq datePattern (trim s)")
  case None
  then show ?thesis by (simp add: parseFromTo_def)
next
  case (Some r0)
  define date where "date = take 10 (trim s)"
  define rest where "rest = trim (drop (length date) (trim s))"
  have d: "matchSeq datePattern date = Some []"
    using matchSeq_take [OF Some] by (simp add: date_def)
  show ?thesis
    using Some matchToOnly_isTime [of rest] matchFromOnly_isTime [of rest]
      matchSingle_isTime [of rest] matchRange_isTime [of rest] stamp_wf [OF d]
    by (auto simp: parseFromTo_def Let_def date_def [symmetric] rest_def [symmetric]
        split: option.splits)
qed

text \<open>
  C8. The range parser is a total function: on every input string it returns a pair, and
  each of the two fields is either empty or a well-formed timestamp
  \<^verbatim>\<open>YYYY-MM-DD HH:MM:SS\<close> of exactly 19 code units, seconds included.
\<close>

theorem parseFromTo_total_wellformed:
  "\<exists>f t. parseFromTo s = (f, t) \<and> (f = [] \<or> isTimestamp f) \<and> (t = [] \<or> isTimestamp t)"
  using parseFromTo_fields [of s] by (cases "parseFromTo s") simp

section \<open>The range parser against the specification\<close>

lemma shape_Nil [simp]: "shape [] s \<longleftrightarrow> s = []"
  by (simp add: shape_def)

lemma shape_Cons_Cons [simp]: "shape (p # pic) (c # cs) \<longleftrightarrow> picClass p c \<and> shape pic cs"
  by (simp add: shape_def)

lemma shape_Cons_Nil [simp]: "\<not> shape (p # pic) []"
  by (simp add: shape_def)

lemma shape_length: "shape pic s \<Longrightarrow> length s = length pic"
  by (simp add: shape_def list_all2_lengthD)

lemma shape_append:
  "shape (p @ q) s \<longleftrightarrow> (\<exists>a b. s = a @ b \<and> shape p a \<and> shape q b)"
  unfolding shape_def list_all2_append1 by (metis list_all2_lengthD)

lemma shape_dash_between:
  "shape (p @ ''-'' @ q) r \<longleftrightarrow> (\<exists>a b. r = a @ ''-'' @ b \<and> shape p a \<and> shape q b)"
proof -
  have "shape (''-'' @ q) x \<longleftrightarrow> (\<exists>b. x = ''-'' @ b \<and> shape q b)" for x
    by (cases x) (auto simp: picClass_def)
  then show ?thesis by (simp only: shape_append [of p]) blast
qed

lemma hhmm_shape: "matchSeq hhmmPattern t = Some [] \<longleftrightarrow> shape ''dd:dd'' t"
  unfolding patterns_unfold by (rule matchSeq_shape)

lemma hhmmss_shape:
  "matchSeq (hhmmPattern @ secondsPattern) t = Some [] \<longleftrightarrow> shape ''dd:dd:dd'' t"
proof -
  have "hhmmPattern @ secondsPattern = map picClass ''dd:dd:dd''"
    by (simp add: patterns_unfold)
  then show ?thesis by (simp only: matchSeq_shape)
qed

lemma date_shape: "matchSeq datePattern t = Some [] \<longleftrightarrow> shape ''dddd-dd-dd'' t"
  unfolding patterns_unfold by (rule matchSeq_shape)

lemma shape_lengths:
  "shape ''dd:dd'' t \<Longrightarrow> length t = 5"
  "shape ''dd:dd:dd'' t \<Longrightarrow> length t = 8"
  "shape ''dddd-dd-dd'' t \<Longrightarrow> length t = 10"
  by (auto dest!: shape_length)

lemma shape_chars: "shape pic s \<Longrightarrow> c \<in> set s \<Longrightarrow> \<exists>p \<in> set pic. picClass p c"
  unfolding shape_def by (induction pic s rule: list_all2_induct) auto

lemma isTime_no_dash: "isTime t \<Longrightarrow> CHR ''-'' \<notin> set t"
  unfolding isTime_def
  by (auto dest!: shape_chars simp: picClass_def is_digit_def)

lemma timeGroup_iff: "(t, r) \<in> set (timeGroup s) \<longleftrightarrow> s = t @ r \<and> isTime t"
proof
  assume "(t, r) \<in> set (timeGroup s)"
  then show "s = t @ r \<and> isTime t" by (rule timeGroup_mem)
next
  assume a: "s = t @ r \<and> isTime t"
  then consider "shape ''dd:dd'' t" | "shape ''dd:dd:dd'' t" by (auto simp: isTime_def)
  then show "(t, r) \<in> set (timeGroup s)"
  proof cases
    case 1
    then have "matchSeq hhmmPattern s = Some r" "take 5 s = t"
      using a shape_lengths(1) [OF 1]
      by (simp_all add: hhmm_shape [symmetric] matchSeq_exact_append)
    then show ?thesis by (simp add: timeGroup_def split: option.splits)
  next
    case 2
    then have m: "matchSeq (hhmmPattern @ secondsPattern) s = Some r"
      using a by (simp add: hhmmss_shape [symmetric] matchSeq_exact_append)
    then obtain r1 where "matchSeq hhmmPattern s = Some r1" "matchSeq secondsPattern r1 = Some r"
      by (auto simp: matchSeq_append split: option.splits)
    moreover have "take 8 s = t" using a shape_lengths(2) [OF 2] by simp
    ultimately show ?thesis by (simp add: timeGroup_def)
  qed
qed

lemma firstMatch_None: "firstMatch f xs = None \<longleftrightarrow> (\<forall>x \<in> set xs. f x = None)"
  by (induction xs) (auto split: option.splits)

lemma firstMatch_unique:
  assumes "\<And>x y'. x \<in> set xs \<Longrightarrow> f x = Some y' \<Longrightarrow> y' = y"
    and "x \<in> set xs" and "f x = Some y"
  shows "firstMatch f xs = Some y"
proof (cases "firstMatch f xs")
  case None
  with assms(2,3) show ?thesis by (simp add: firstMatch_None)
next
  case (Some y')
  then obtain x' where "x' \<in> set xs" "f x' = Some y'" by (auto dest: firstMatch_Some)
  with assms(1) Some show ?thesis by simp
qed

lemma matchSingle_char: "matchSingle r = (if isTime r then Some r else None)"
proof (cases "isTime r")
  case True
  then have "(r, []) \<in> set (timeGroup r)" by (simp add: timeGroup_iff)
  then have "matchSingle r = Some r"
    unfolding matchSingle_def
    by (rule firstMatch_unique [rotated]) (auto simp: timeGroup_iff split: if_splits)
  with True show ?thesis by simp
next
  case False
  then show ?thesis
    by (auto simp: matchSingle_def firstMatch_None timeGroup_iff)
qed

lemma matchToOnly_char: "matchToOnly r = (if toOnlyShape r then Some (tl r) else None)"
proof (cases r)
  case Nil
  then show ?thesis by (simp add: matchToOnly_def toOnlyShape_def)
next
  case (Cons c r')
  have "matchToOnly (c # r') = (if c = CHR ''-'' then matchSingle r' else None)"
    by (simp add: matchToOnly_def matchSingle_def)
  moreover have "toOnlyShape (c # r') \<longleftrightarrow> c = CHR ''-'' \<and> isTime r'"
    by (auto simp: toOnlyShape_def isTime_def picClass_def)
  ultimately show ?thesis using Cons by (simp add: matchSingle_char)
qed

lemma fromOnlyShape_iff: "fromOnlyShape r \<longleftrightarrow> (\<exists>t. r = t @ ''-'' \<and> isTime t)"
proof -
  have "shape (p @ ''-'') r \<longleftrightarrow> (\<exists>t. r = t @ ''-'' \<and> shape p t)" for p
    using shape_dash_between [of p "[]" r] by simp
  from this [of "''dd:dd''"] this [of "''dd:dd:dd''"] show ?thesis
    by (auto simp: fromOnlyShape_def isTime_def)
qed

lemma matchFromOnly_char: "matchFromOnly r = (if fromOnlyShape r then Some (butlast r) else None)"
proof (cases "fromOnlyShape r")
  case True
  then obtain t where t: "r = t @ ''-''" "isTime t" by (auto simp: fromOnlyShape_iff)
  then have "(t, ''-'') \<in> set (timeGroup r)" by (simp add: timeGroup_iff)
  then have "matchFromOnly r = Some t"
    unfolding matchFromOnly_def
    by (rule firstMatch_unique [rotated]) (auto simp: timeGroup_iff t split: if_splits)
  with True t show ?thesis by (simp add: butlast_append)
next
  case False
  then show ?thesis
    by (auto simp: matchFromOnly_def firstMatch_None timeGroup_iff fromOnlyShape_iff)
qed


lemma rangeShape_iff:
  "rangeShape r \<longleftrightarrow> (\<exists>t1 t2. r = t1 @ ''-'' @ t2 \<and> isTime t1 \<and> isTime t2)"
proof -
  note d = shape_dash_between [of _ _ r]
  have "rangeShape r \<longleftrightarrow>
      shape (''dd:dd'' @ ''-'' @ ''dd:dd'') r \<or> shape (''dd:dd:dd'' @ ''-'' @ ''dd:dd'') r \<or>
      shape (''dd:dd'' @ ''-'' @ ''dd:dd:dd'') r \<or> shape (''dd:dd:dd'' @ ''-'' @ ''dd:dd:dd'') r"
    by (simp add: rangeShape_def)
  then show ?thesis unfolding d isTime_def by blast
qed

lemma split_at_dash:
  assumes "CHR ''-'' \<notin> set t1"
  shows "takeWhile (\<lambda>c. c \<noteq> CHR ''-'') (t1 @ ''-'' @ t2) = t1"
    and "tl (dropWhile (\<lambda>c. c \<noteq> CHR ''-'') (t1 @ ''-'' @ t2)) = t2"
  using assms by (induction t1) auto

lemma matchRange_inner:
  "matchRangeTail t1 r1 =
   (if \<exists>t2. r1 = ''-'' @ t2 \<and> isTime t2 then Some (t1, tl r1) else None)"
proof -
  have "firstMatch (\<lambda>(t2, r'). if r' = [] then Some (t1, t2) else None) xs =
      map_option (Pair t1) (firstMatch (\<lambda>(t, r'). if r' = [] then Some t else None) xs)"
    for xs :: "(string \<times> string) list"
    by (induction xs) (auto split: option.splits if_splits)
  then show ?thesis
    by (cases r1) (simp_all add: matchRangeTail_def matchSingle_def [symmetric] matchSingle_char)
qed

lemma matchRange_char:
  "matchRange r =
     (if rangeShape r
      then Some (takeWhile (\<lambda>c. c \<noteq> CHR ''-'') r, tl (dropWhile (\<lambda>c. c \<noteq> CHR ''-'') r))
      else None)"
proof (cases "rangeShape r")
  case True
  then obtain t1 t2 where t: "r = t1 @ ''-'' @ t2" "isTime t1" "isTime t2"
    by (auto simp: rangeShape_iff)
  have mem: "(t1, ''-'' @ t2) \<in> set (timeGroup r)" using t by (simp add: timeGroup_iff)
  have uniq: "a = t1 \<and> b = t2" if "r = a @ ''-'' @ b" "isTime a" for a b
  proof -
    have "takeWhile (\<lambda>c. c \<noteq> CHR ''-'') r = a" "tl (dropWhile (\<lambda>c. c \<noteq> CHR ''-'') r) = b"
      using split_at_dash [OF isTime_no_dash [OF that(2)], of b] that(1) by simp_all
    moreover have "takeWhile (\<lambda>c. c \<noteq> CHR ''-'') r = t1" "tl (dropWhile (\<lambda>c. c \<noteq> CHR ''-'') r) = t2"
      using split_at_dash [OF isTime_no_dash [OF t(2)], of t2] t(1) by simp_all
    ultimately show ?thesis by simp
  qed
  have "matchRange r = Some (t1, t2)"
    unfolding matchRange_def
  proof (rule firstMatch_unique [OF _ mem])
    show "(case (t1, ''-'' @ t2) of (t1, r1) \<Rightarrow> matchRangeTail t1 r1) = Some (t1, t2)"
      unfolding prod.case matchRange_inner using t(3) by auto
  next
    fix x y'
    assume x: "x \<in> set (timeGroup r)"
      and y: "(case x of (t1, r1) \<Rightarrow> matchRangeTail t1 r1) = Some y'"
    obtain a r1 where xa: "x = (a, r1)" by (cases x)
    from x xa have a: "r = a @ r1" "isTime a" by (simp_all add: timeGroup_iff)
    from y xa obtain b where b: "r1 = ''-'' @ b" "y' = (a, b)"
      unfolding prod.case matchRange_inner by (auto split: if_splits)
    from uniq [of a b] a b show "y' = (t1, t2)" by simp
  qed
  moreover have "takeWhile (\<lambda>c. c \<noteq> CHR ''-'') r = t1" "tl (dropWhile (\<lambda>c. c \<noteq> CHR ''-'') r) = t2"
    using split_at_dash [OF isTime_no_dash [OF t(2)], of t2] t(1) by simp_all
  ultimately show ?thesis using True by simp
next
  case False
  then show ?thesis
    by (auto simp: matchRange_def firstMatch_None matchRange_inner timeGroup_iff rangeShape_iff)
qed

lemma ensureSeconds_withSeconds: "isTime t \<Longrightarrow> ensureSeconds t = withSeconds t"
  by (auto simp: isTime_def ensureSeconds_def withSeconds_def dest: shape_lengths)

lemma toOnlyShape_tl: "toOnlyShape r \<Longrightarrow> isTime (tl r)"
  by (cases r) (auto simp: toOnlyShape_def isTime_def)

lemma fromOnlyShape_butlast: "fromOnlyShape r \<Longrightarrow> isTime (butlast r)"
  by (auto simp: fromOnlyShape_iff butlast_append)

lemma rangeShape_parts:
  "rangeShape r \<Longrightarrow> isTime (takeWhile (\<lambda>c. c \<noteq> CHR ''-'') r) \<and>
     isTime (tl (dropWhile (\<lambda>c. c \<noteq> CHR ''-'') r))"
  using split_at_dash isTime_no_dash by (fastforce simp: rangeShape_iff)

text \<open>
  C2. For every input string the range parser returns both-empty when no leading
  \<^verbatim>\<open>YYYY-MM-DD\<close> token is present (the text is read trimmed; the entries the extractor
  passes are trimmed already). Otherwise the trimmed remainder is matched against the four
  shapes in priority order (to-only, from-only, range, bare time as to-only); the first
  match decides, every timestamp produced is the date, a space and the time with seconds
  defaulted to 00, and no match gives both-empty. That is, the source's parser equals the
  specification's parser.
\<close>

theorem parseFromTo_refines_spec: "parseFromTo s = parse_spec s"
proof (cases "matchSeq datePattern (trim s)")
  case None
  then have "\<not> shape ''dddd-dd-dd'' (take 10 (trim s))"
    using matchSeq_exact_append [of datePattern "take 10 (trim s)" "drop 10 (trim s)"]
    by (auto simp: date_shape [symmetric])
  with None show ?thesis by (simp add: parseFromTo_def parse_spec_def)
next
  case (Some r0)
  then have "shape ''dddd-dd-dd'' (take 10 (trim s))"
    using matchSeq_take [OF Some] by (simp add: date_shape [symmetric])
  moreover have "min (length (trim s)) 10 = 10"
    using matchSeq_Some_split [OF Some] by simp
  ultimately show ?thesis using Some
    by (simp add: parseFromTo_def parse_spec_def Let_def matchToOnly_char matchFromOnly_char
        matchRange_char matchSingle_char ensureSeconds_withSeconds toOnlyShape_tl
        fromOnlyShape_butlast rangeShape_parts)
qed


section \<open>The CSV encoding\<close>

lemma join_Cons: "join sep (x # xs) = x @ concat (map (\<lambda>y. sep @ y) xs)"
  by (induction xs arbitrary: x) simp_all

lemma doubleQuotes_doubled: "doubleQuotes v = doubled v"
  by (induction v) (simp_all add: doubleQuotes_def)

lemma doubled_no_quote: "DQ \<notin> set v \<Longrightarrow> doubled v = v"
  by (induction v) auto

lemma csvEscape_spec: "csvEscape v = csvFieldSpec v"
  by (auto simp: csvEscape_def csvFieldSpec_def needsQuotes_def doubleQuotes_doubled
      doubled_no_quote Let_def)

lemma csv_record: "join '','' (map csvEscape cols) = csvRecordSpec cols"
  by (cases cols) (simp_all add: csvRecordSpec_def join_Cons csvEscape_spec comp_def)

lemma header_plain: "csvRecordSpec [''Task'', ''From'', ''To'', ''File'', ''Line''] = ''Task,From,To,File,Line''"
  by (simp add: csvRecordSpec_def csvFieldSpec_def needsQuotes_def DQ_def LF_def)

text \<open>
  C9. For every row table, the empty one included, the CSV text begins with the header
  \<^verbatim>\<open>Task,From,To,File,Line\<close>; every row follows on a line of its own with its fields in
  that order; and a field is wrapped in double quotes exactly when it contains a comma, a
  double quote or a newline, with every embedded double quote doubled, and is emitted as
  it is otherwise.
\<close>

theorem createCsvContent_format:
  "createCsvContent rows =
     ''Task,From,To,File,Line'' @
     concat (map (\<lambda>r. [LF] @ csvRecordSpec [rtask r, rfrom r, rto r, rfile r, showNat (rline r)])
       rows)"
  unfolding createCsvContent_def Let_def list.map csv_record join_Cons map_map comp_def header_plain
  by simp

section \<open>The corpus extractor\<close>

lemma timeLogEntries_Nil [simp]: "timeLogEntries [] = []"
  by (simp add: timeLogEntries_def trim_def)

lemma lineRows_fromTo:
  "map (\<lambda>r. (rfrom r, rto r)) (lineRows path i ln) =
     map parseFromTo (filter dateRegexTest (lineEntries ln))"
  by (auto simp: lineRows_def lineEntries_def Let_def comp_def split: option.splits prod.splits)

lemma concat_enumerate:
  "concat (map (\<lambda>(i, l). h l) (enumerate n ls)) = concat (map h ls)"
  by (induction ls arbitrary: n) simp_all

lemma fileRows_fromTo:
  "map (\<lambda>r. (rfrom r, rto r)) (fileRows f) =
     map parseFromTo (filter dateRegexTest (concat (map lineEntries (splitLines (snd f)))))"
proof -
  have "map (\<lambda>r. (rfrom r, rto r)) (fileRows f) =
      concat (map (\<lambda>(i, l). map parseFromTo (filter dateRegexTest (lineEntries l)))
        (enumerate 0 (splitLines (snd f))))"
    by (simp add: fileRows_def map_concat comp_def case_prod_unfold lineRows_fromTo)
  then show ?thesis
    by (simp add: concat_enumerate map_concat filter_concat comp_def)
qed

lemma discoverRows_fromTo:
  "map (\<lambda>r. (rfrom r, rto r)) (discoverRows files) =
     map parseFromTo (filter dateRegexTest (corpusEntries files))"
  by (simp add: discoverRows_def corpusEntries_def map_concat filter_concat comp_def
      fileRows_fromTo)

lemma mset_insertBy: "mset (insertBy cmp x ys) = add_mset x (mset ys)"
  by (induction ys) simp_all

lemma mset_sortBy: "mset (sortBy cmp xs) = mset xs"
  by (induction xs) (simp_all add: sortBy_def mset_insertBy)

text \<open>
  C1 (amended). Every entry that passes the date pre-filter produces one row, whatever the
  range parser returns for it: the (from, to) pairs of the extractor's rows are, with
  multiplicity, exactly the parser's results on the pre-filtered entries of the corpus.
  So a row has both fields empty exactly when the parser returned both-empty for its
  entry; nothing is dropped after the pre-filter.
\<close>

theorem collect_rows_are_parsed_entries:
  "mset (map (\<lambda>r. (rfrom r, rto r)) (collectTimeLogRows localeCompare markdownFiles)) =
     mset (map parseFromTo (filter dateRegexTest (corpusEntries markdownFiles)))"
proof -
  have "mset (map (\<lambda>r. (rfrom r, rto r)) (collectTimeLogRows localeCompare markdownFiles)) =
      mset (map (\<lambda>r. (rfrom r, rto r)) (discoverRows markdownFiles))"
    by (simp add: collectTimeLogRows_def mset_sortBy)
  then show ?thesis by (simp add: discoverRows_fromTo)
qed


text \<open>
  C1 as stated fails: the entry \<^verbatim>\<open>see 2025-01-01\<close> passes the date pre-filter, the range
  parser returns both-empty for it (no leading date), and a row is emitted all the same.
\<close>

theorem collect_emits_both_empty_counterexample:
  "dateRegexTest ''see 2025-01-01'' \<and> parseFromTo ''see 2025-01-01'' = ([], []) \<and>
   collectTimeLogRows codeUnitCompare [(''A.md'', ''- [ ] a [time-logs:: see 2025-01-01; ]'')] =
     [\<lparr>rtask = ''a'', rfrom = [], rto = [], rfile = ''A.md'', rline = 1\<rparr>]"
  by code_simp

lemma rowKey_isKey:
  assumes "r \<in> set (discoverRows files)"
  shows "isKey (rowKey r)"
proof -
  from assms have "(rfrom r, rto r) \<in> set (map (\<lambda>r. (rfrom r, rto r)) (discoverRows files))"
    by force
  then obtain e where "parseFromTo e = (rfrom r, rto r)"
    unfolding discoverRows_fromTo by auto
  with parseFromTo_fields [of e] show ?thesis
    by (auto simp: isKey_def rowKey_def)
qed

lemma insertBy_insort_key:
  assumes "\<And>y. y \<in> set ys \<Longrightarrow> (cmp x y \<le> 0) = (f x \<le> f y)"
  shows "insertBy cmp x ys = insort_key f x ys"
  using assms by (induction ys) simp_all

lemma sortBy_sort_key:
  assumes "\<And>x y. x \<in> set xs \<Longrightarrow> y \<in> set xs \<Longrightarrow> (cmp x y \<le> 0) = (f x \<le> f y)"
  shows "sortBy cmp xs = sort_key f xs"
  using assms
proof (induction xs)
  case Nil
  then show ?case by (simp add: sortBy_def)
next
  case (Cons x xs)
  have "sortBy cmp xs = sort_key f xs" using Cons by simp
  moreover have "insertBy cmp x (sort_key f xs) = insort_key f x (sort_key f xs)"
    by (rule insertBy_insort_key) (simp add: Cons.prems)
  ultimately show ?case by (simp add: sortBy_def sort_key_def)
qed

text \<open>
  C5. Let the host's comparison agree with plain lexicographic comparison of code units on
  the keys that occur (the empty string and well-formed timestamps). Then for every corpus
  the extractor's rows are sorted ascending by the key (from if non-empty, else to if
  non-empty, else the empty string), rows with equal keys keep their discovery order
  (file order, then line order, then entry order), and the rows are those discovered.
\<close>

theorem collect_sorted_stable:
  assumes "\<And>a b. isKey a \<Longrightarrow> isKey b \<Longrightarrow> (localeCompare a b \<le> 0) = (a \<le> b)"
  shows "sorted (map rowKey (collectTimeLogRows localeCompare markdownFiles)) \<and>
    (\<forall>k. filter (\<lambda>r. rowKey r = k) (collectTimeLogRows localeCompare markdownFiles) =
          filter (\<lambda>r. rowKey r = k) (discoverRows markdownFiles)) \<and>
    mset (collectTimeLogRows localeCompare markdownFiles) = mset (discoverRows markdownFiles)"
proof -
  have "collectTimeLogRows localeCompare markdownFiles = sort_key rowKey (discoverRows markdownFiles)"
    unfolding collectTimeLogRows_def
    by (rule sortBy_sort_key) (simp add: assms rowKey_isKey)
  then show ?thesis by (simp add: sort_key_stable)
qed

text \<open>The example of the claim: the row of the later file, with the smaller key, comes
  first.\<close>

theorem collect_sorted_stable_witness:
  "collectTimeLogRows codeUnitCompare
     [(''A.md'', ''- [ ] a [time-logs:: 2025-01-02 -10:00; ]''),
      (''B.md'', ''- [ ] b [time-logs:: 2025-01-01 -09:00; ]'')] =
     [\<lparr>rtask = ''b'', rfrom = [], rto = ''2025-01-01 09:00:00'', rfile = ''B.md'', rline = 1\<rparr>,
      \<lparr>rtask = ''a'', rfrom = [], rto = ''2025-01-02 10:00:00'', rfile = ''A.md'', rline = 1\<rparr>] \<and>
   sorted (map rowKey (collectTimeLogRows codeUnitCompare
     [(''A.md'', ''- [ ] a [time-logs:: 2025-01-02 -10:00; ]''),
      (''B.md'', ''- [ ] b [time-logs:: 2025-01-01 -09:00; ]'')]))"
proof -
  have h: "(codeUnitCompare a b \<le> 0) = (a \<le> b)" for a b
    by (auto simp: codeUnitCompare_def)
  have "collectTimeLogRows codeUnitCompare
     [(''A.md'', ''- [ ] a [time-logs:: 2025-01-02 -10:00; ]''),
      (''B.md'', ''- [ ] b [time-logs:: 2025-01-01 -09:00; ]'')] =
     [\<lparr>rtask = ''b'', rfrom = [], rto = ''2025-01-01 09:00:00'', rfile = ''B.md'', rline = 1\<rparr>,
      \<lparr>rtask = ''a'', rfrom = [], rto = ''2025-01-02 10:00:00'', rfile = ''A.md'', rline = 1\<rparr>]"
    by code_simp
  with collect_sorted_stable [of codeUnitCompare, OF h] show ?thesis by blast
qed

section \<open>The task label\<close>

text \<open>
  C6. The label of a line whose text is an unchecked checkbox followed by a checked one
  loses both prefixes, although one prefix at most is to be stripped; in the opposite
  order only one is stripped.
\<close>

theorem normalizeTaskText_strips_two_prefixes:
  "map rtask (lineRows ''A.md'' 0 ''- [ ] - [x] call Bob [time-logs:: 2025-01-01 -10:00; ]'') =
     [''call Bob''] \<and>
   map rtask (lineRows ''A.md'' 0 ''- [x] - [ ] call Bob [time-logs:: 2025-01-01 -10:00; ]'') =
     [''- [ ] call Bob'']"
  by code_simp

section \<open>The line mutator: placement before inline metadata\<close>

lemma dvMatchAt_bracket: "dvMatchAt s \<Longrightarrow> \<exists>cs. s = CHR ''['' # cs"
  by (cases s) (auto simp: dvMatchAt_def)

lemma dvSearchFrom_cases:
  "dvSearchFrom i s = -1 \<and> (\<forall>j < length s. \<not> dvMatchAt (drop j s)) \<or>
   (\<exists>k < length s. dvSearchFrom i s = int (i + k) \<and> dvMatchAt (drop k s) \<and>
      (\<forall>j < k. \<not> dvMatchAt (drop j s)))"
proof (induction s arbitrary: i)
  case Nil
  then show ?case by simp
next
  case (Cons c cs)
  show ?case
  proof (cases "dvMatchAt (c # cs)")
    case True
    then show ?thesis by auto
  next
    case False
    from Cons [of "Suc i"] show ?thesis
    proof
      assume a: "dvSearchFrom (Suc i) cs = - 1 \<and> (\<forall>j<length cs. \<not> dvMatchAt (drop j cs))"
      have "\<not> dvMatchAt (drop j (c # cs))" if "j < length (c # cs)" for j
        using that a False by (cases j) auto
      with a False show ?thesis by simp
    next
      assume "\<exists>k<length cs. dvSearchFrom (Suc i) cs = int (Suc i + k) \<and> dvMatchAt (drop k cs) \<and>
        (\<forall>j<k. \<not> dvMatchAt (drop j cs))"
      then obtain k where k: "k < length cs" "dvSearchFrom (Suc i) cs = int (Suc i + k)"
        "dvMatchAt (drop k cs)" "\<forall>j<k. \<not> dvMatchAt (drop j cs)" by blast
      have "\<not> dvMatchAt (drop j (c # cs))" if "j < Suc k" for j
        using that k(4) False by (cases j) auto
      with k False have "Suc k < length (c # cs) \<and> dvSearchFrom i (c # cs) = int (i + Suc k) \<and>
        dvMatchAt (drop (Suc k) (c # cs)) \<and> (\<forall>j<Suc k. \<not> dvMatchAt (drop j (c # cs)))"
        by simp
      then show ?thesis by blast
    qed
  qed
qed

lemma findFirstInlineDataviewIndex_found:
  assumes "findFirstInlineDataviewIndex line \<noteq> -1"
  obtains idx where "findFirstInlineDataviewIndex line = int idx" "idx < length line"
    "dvMatchAt (drop idx line)" "\<And>j. j < idx \<Longrightarrow> \<not> dvMatchAt (drop j line)"
  using assms dvSearchFrom_cases [of 0 line]
  unfolding findFirstInlineDataviewIndex_def by auto

lemma endsWithSpace_take:
  assumes "0 < n" "n \<le> length s"
  shows "endsWithSpace (take n s) = is_space (s ! (n - 1))"
proof -
  from assms obtain m where m: "n = Suc m" "m < length s" by (cases n) auto
  then have "take n s = take m s @ [s ! m]" by (simp add: take_Suc_conv_app_nth)
  with m show ?thesis by (simp add: endsWithSpace_def)
qed

lemma startsWithSpace_drop:
  "n < length s \<Longrightarrow> startsWithSpace (drop n s) = is_space (s ! n)"
  by (simp add: startsWithSpace_def Cons_nth_drop_Suc [symmetric])

text \<open>
  C7. Let a line have no marker and contain an inline metadata token, the first one
  starting at offset \<open>idx\<close> (no token starts before it). The mutator puts the new marker at that offset, before the
  token: the text before the token and the text from the token on are kept as they are.
  One space is added before the marker when a character stands before it and is not
  white space (none at the start of the line), and one space after it when the character
  that follows is not white space; that character is the token's opening bracket.
\<close>

theorem mutator_inserts_before_inline_token:
  assumes "findMarker line = None" and "findFirstInlineDataviewIndex line \<noteq> -1"
  shows "\<exists>idx. findFirstInlineDataviewIndex line = int idx \<and> idx < length line \<and>
      dvMatchAt (drop idx line) \<and> (\<forall>j<idx. \<not> dvMatchAt (drop j line)) \<and>
      line ! idx = CHR ''['' \<and>
      appendTimeLogToLine line t =
        take idx line
        @ (if 0 < idx \<and> \<not> is_space (line ! (idx - 1)) then '' '' else [])
        @ ''[time-logs:: '' @ t @ ''; ]''
        @ (if is_space (line ! idx) then [] else '' '')
        @ drop idx line"
proof -
  from assms(2) obtain idx where idx: "findFirstInlineDataviewIndex line = int idx"
    "idx < length line" "dvMatchAt (drop idx line)" "\<forall>j<idx. \<not> dvMatchAt (drop j line)"
    by (rule findFirstInlineDataviewIndex_found) blast
  from idx(3) obtain cs where cs: "drop idx line = CHR ''['' # cs"
    by (auto dest: dvMatchAt_bracket)
  with idx(2) have br: "line ! idx = CHR ''[''"
    by (metis nth_via_drop)
  have e: "endsWithSpace (take idx line) = is_space (line ! (idx - 1))" if "0 < idx"
    using that idx(2) by (simp add: endsWithSpace_take)
  have s: "startsWithSpace (drop idx line) = is_space (line ! idx)"
    using idx(2) by (rule startsWithSpace_drop)
  have "appendTimeLogToLine line t =
        take idx line
        @ (if 0 < idx \<and> \<not> is_space (line ! (idx - 1)) then '' '' else [])
        @ ''[time-logs:: '' @ t @ ''; ]''
        @ (if is_space (line ! idx) then [] else '' '')
        @ drop idx line"
    using assms(1) idx(1,2) e s
    by (auto simp: appendTimeLogToLine_def insertBeforeInlineDataview_def Let_def)
  with idx br show ?thesis by blast
qed


theorem mutator_inserts_before_inline_token_witness:
  "findMarker ''- [ ] Write report [due:: 2025-01-01] x'' = None \<and>
   findFirstInlineDataviewIndex ''- [ ] Write report [due:: 2025-01-01] x'' = 19 \<and>
   appendTimeLogToLine ''- [ ] Write report [due:: 2025-01-01] x'' ''2025-08-28 -14:32'' =
     ''- [ ] Write report [time-logs:: 2025-08-28 -14:32; ] [due:: 2025-01-01] x''"
proof -
  have a: "findMarker ''- [ ] Write report [due:: 2025-01-01] x'' = None"
    by code_simp
  have c: "findFirstInlineDataviewIndex ''- [ ] Write report [due:: 2025-01-01] x'' = 19"
    by code_simp
  then have b: "findFirstInlineDataviewIndex ''- [ ] Write report [due:: 2025-01-01] x'' \<noteq> -1"
    by simp
  from mutator_inserts_before_inline_token [OF a b, of "''2025-08-28 -14:32''"] c
  have "appendTimeLogToLine ''- [ ] Write report [due:: 2025-01-01] x'' ''2025-08-28 -14:32'' =
     ''- [ ] Write report [time-logs:: 2025-08-28 -14:32; ] [due:: 2025-01-01] x''"
    by (auto simp: is_space_def)
  with a c show ?thesis by simp
qed

section \<open>The line mutator: appending entries\<close>

subsection \<open>trim\<close>

lemma trim_Nil [simp]: "trim [] = []"
  by (simp add: trim_def)

lemma trim_space_Cons: "is_space c \<Longrightarrow> trim (c # s) = trim s"
  by (simp add: trim_def)

lemma trim_snoc_space: "is_space c \<Longrightarrow> trim (s @ [c]) = trim s"
proof (cases "\<forall>x \<in> set s. is_space x")
  case True
  assume "is_space c"
  with True have "\<forall>x \<in> set (s @ [c]). is_space x" by simp
  then have 1: "dropWhile is_space (s @ [c]) = []" by (simp only: dropWhile_eq_Nil_conv)
  from True have 2: "dropWhile is_space s = []" by (simp only: dropWhile_eq_Nil_conv)
  show ?thesis unfolding trim_def 1 2 by (rule refl)
next
  case False
  assume c: "is_space c"
  from False obtain x where "x \<in> set s" "\<not> is_space x" by blast
  then have "dropWhile is_space (s @ [c]) = dropWhile is_space s @ [c]"
    by (rule dropWhile_append1)
  with c show ?thesis by (simp add: trim_def)
qed

lemma trim_fixed:
  assumes "s \<noteq> []" "\<not> is_space (hd s)" "\<not> is_space (last s)"
  shows "trim s = s"
proof -
  from assms have "dropWhile is_space s = s" by (cases s) auto
  moreover from assms have "dropWhile is_space (rev s) = rev s"
    by (cases s rule: rev_cases) auto
  ultimately show ?thesis by (simp add: trim_def)
qed

lemma trim_ends:
  assumes "trim s \<noteq> []"
  shows "\<not> is_space (hd (trim s)) \<and> \<not> is_space (last (trim s))"
proof -
  let ?r = "dropWhile is_space (rev (dropWhile is_space s))"
  from assms have r: "?r \<noteq> []" by (simp add: trim_def)
  then have h: "\<not> is_space (hd ?r)" by (rule hd_dropWhile)
  have "last ?r = last (rev (dropWhile is_space s))"
    using r by (metis last_append takeWhile_dropWhile_id)
  also have "\<dots> = hd (dropWhile is_space s)"
    by (metis last_rev)
  finally have "\<not> is_space (last ?r)"
    using r by (metis dropWhile.simps(1) hd_dropWhile rev_is_Nil_conv)
  with h r show ?thesis by (simp add: trim_def hd_rev last_rev)
qed

lemma set_trim: "set (trim s) \<subseteq> set s"
proof
  fix x assume "x \<in> set (trim s)"
  then have "x \<in> set (dropWhile is_space (rev (dropWhile is_space s)))"
    by (simp add: trim_def)
  then have "x \<in> set (rev (dropWhile is_space s))" by (rule set_dropWhileD)
  then have "x \<in> set (dropWhile is_space s)" by simp
  then show "x \<in> set s" by (rule set_dropWhileD)
qed


subsection \<open>Entries\<close>

lemma trim_trim: "trim (trim s) = trim s"
proof (cases "trim s = []")
  case True
  then show ?thesis by simp
next
  case False
  with trim_ends [OF False] show ?thesis by (intro trim_fixed) simp_all
qed

text \<open>Every entry the extractor hands to the range parser is trimmed and not empty.\<close>

lemma timeLogEntries_trimmed: "e \<in> set (timeLogEntries raw) \<Longrightarrow> trim e = e \<and> e \<noteq> []"
  by (auto simp: timeLogEntries_def trim_trim)

lemma splitOn_nonempty [simp]: "splitOn d s \<noteq> []"
  by (induction s) (auto split: list.splits elim: consHead.elims)

lemma consHead_append: "ls \<noteq> [] \<Longrightarrow> consHead c (ls @ ms) = consHead c ls @ ms"
  by (cases ls) simp_all

lemma splitOn_delim: "splitOn d (x @ d # y) = splitOn d x @ splitOn d y"
  by (induction x) (simp_all add: consHead_append)

lemma splitOn_none: "d \<notin> set s \<Longrightarrow> splitOn d s = [s]"
  by (induction s) auto

lemma timeLogEntries_delim:
  "timeLogEntries (x @ CHR '';'' # y) = timeLogEntries x @ timeLogEntries y"
  by (simp add: timeLogEntries_def splitOn_delim)

lemma timeLogEntries_piece:
  "CHR '';'' \<notin> set s \<Longrightarrow> timeLogEntries s = (if trim s = [] then [] else [trim s])"
  by (simp add: timeLogEntries_def splitOn_none)

lemma plainEntry_ends:
  assumes "plainEntry t"
  shows "t \<noteq> []" "\<not> is_space (hd t)" "\<not> is_space (last t)" "CHR '';'' \<notin> set t"
proof -
  from assms have t: "t \<noteq> []" "trim t = t" "list_all plainChar t"
    by (simp_all add: plainEntry_def)
  show "t \<noteq> []" by fact
  from trim_ends [of t] t show "\<not> is_space (hd t)" "\<not> is_space (last t)" by simp_all
  from t(3) show "CHR '';'' \<notin> set t" by (auto simp: list_all_iff plainChar_def)
qed

lemma space_is_space [simp]: "is_space (CHR '' '')"
  by (simp add: is_space_def)

lemma semicolon_not_space [simp]: "\<not> is_space (CHR '';'')"
  by (simp add: is_space_def)

lemma trim_appendEntry:
  assumes "plainEntry t"
  shows "trim (appendEntry inner t) =
     (if trim inner \<noteq> [] then trim inner @ '' '' else []) @ t @ '';''"
proof (cases "trim inner = []")
  case True
  have "trim ('' '' @ t @ '';'' @ '' '') = trim (t @ '';'')"
    using trim_snoc_space [of "CHR '' ''" "'' '' @ t @ '';''"]
    by (simp add: trim_space_Cons)
  also have "\<dots> = t @ '';''"
    using plainEntry_ends [OF assms] by (intro trim_fixed) simp_all
  finally show ?thesis using True by (simp add: appendEntry_def)
next
  case False
  let ?e = "trim inner"
  have "trim (?e @ '' '' @ t @ '';'' @ '' '') = trim (?e @ '' '' @ t @ '';'')"
    using trim_snoc_space [of "CHR '' ''" "?e @ '' '' @ t @ '';''"] by simp
  also have "\<dots> = ?e @ '' '' @ t @ '';''"
    using False trim_ends [OF False] by (intro trim_fixed) simp_all
  finally show ?thesis using False by (simp add: appendEntry_def)
qed

lemma entries_appendEntry:
  assumes "plainEntry t" "closedInner inner"
  shows "timeLogEntries (trim (appendEntry inner t)) = timeLogEntries (trim inner) @ [t]"
proof -
  note p = plainEntry_ends [OF assms(1)]
  have sp: "trim ('' '' @ t) = t"
    using p by (simp add: trim_space_Cons trim_fixed)
  have one: "timeLogEntries ('' '' @ t) = [t]"
    using p sp timeLogEntries_piece [of "'' '' @ t"] by simp
  show ?thesis
  proof (cases "trim inner = []")
    case True
    have "timeLogEntries (t @ '';'') = [t]"
      using timeLogEntries_delim [of t "[]"] timeLogEntries_piece [of t] p
      by (simp add: trim_fixed)
    with True show ?thesis by (simp add: trim_appendEntry [OF assms(1)])
  next
    case False
    with assms(2) obtain x where x: "trim inner = x @ '';''"
      unfolding closedInner_def by (metis append_butlast_last_id)
    have "timeLogEntries (x @ CHR '';'' # ('' '' @ t) @ CHR '';'' # []) =
        timeLogEntries x @ timeLogEntries ('' '' @ t) @ timeLogEntries []"
      using timeLogEntries_delim [of x "('' '' @ t) @ CHR '';'' # []"]
        timeLogEntries_delim [of "'' '' @ t" "[]"] by simp
    moreover have "timeLogEntries (x @ '';'') = timeLogEntries x"
      using timeLogEntries_delim [of x "[]"] by simp
    ultimately show ?thesis
      using False x one by (simp add: trim_appendEntry [OF assms(1)])
  qed
qed

lemma closed_appendEntry: "plainEntry t \<Longrightarrow> closedInner (appendEntry inner t)"
  by (simp add: closedInner_def trim_appendEntry)


subsection \<open>Finding the marker\<close>

lemma startsWith_append: "startsWith (p @ s) p"
  by (simp add: startsWith_def)

lemma startsWith_iff: "startsWith s p \<longleftrightarrow> (\<exists>r. s = p @ r)"
  unfolding startsWith_def by (metis append_eq_conv_conj append_take_drop_id)

lemma hasOpen_iff: "hasOpen s \<longleftrightarrow> (\<exists>a b. s = a @ markerOpen @ b)"
proof (induction s)
  case Nil
  then show ?case by (simp add: markerOpen_def)
next
  case (Cons c cs)
  show ?case
  proof
    assume "hasOpen (c # cs)"
    then consider "startsWith (c # cs) markerOpen" | "hasOpen cs" by auto
    then show "\<exists>a b. c # cs = a @ markerOpen @ b"
    proof cases
      case 1
      then obtain r where "c # cs = [] @ markerOpen @ r" by (auto simp: startsWith_iff)
      then show ?thesis by blast
    next
      case 2
      with Cons obtain a b where "cs = a @ markerOpen @ b" by blast
      then have "c # cs = (c # a) @ markerOpen @ b" by simp
      then show ?thesis by blast
    qed
  next
    assume "\<exists>a b. c # cs = a @ markerOpen @ b"
    then obtain a b where ab: "c # cs = a @ markerOpen @ b" by blast
    show "hasOpen (c # cs)"
    proof (cases a)
      case Nil
      with ab have "startsWith (c # cs) markerOpen" by (simp add: startsWith_iff)
      then show ?thesis by simp
    next
      case (Cons a0 a')
      with ab have "cs = a' @ markerOpen @ b" by simp
      with Cons.IH show ?thesis by auto
    qed
  qed
qed

lemma hasOpen_appendI1: "hasOpen x \<Longrightarrow> hasOpen (x @ y)"
  unfolding hasOpen_iff by (metis append.assoc)

lemma hasOpen_appendI2: "hasOpen y \<Longrightarrow> hasOpen (x @ y)"
  unfolding hasOpen_iff by (metis append.assoc)

lemma hasOpen_take: "hasOpen (take n s) \<Longrightarrow> hasOpen s"
  using hasOpen_appendI1 [of "take n s" "drop n s"] by simp

lemma hasOpen_drop: "hasOpen (drop n s) \<Longrightarrow> hasOpen s"
  using hasOpen_appendI2 [of "drop n s" "take n s"] by simp

text \<open>A string without an opening bracket in front of another one adds no open token.\<close>

lemma hasOpen_no_bracket: "CHR ''['' \<notin> set x \<Longrightarrow> hasOpen (x @ y) = hasOpen y"
proof (induction x)
  case Nil
  then show ?case by simp
next
  case (Cons c x)
  then have "\<not> startsWith (c # x @ y) markerOpen"
    by (auto simp: startsWith_iff markerOpen_def)
  with Cons show ?case by simp
qed

lemma hasOpen_snoc_space: "hasOpen (x @ '' '') = hasOpen x"
proof
  assume "hasOpen (x @ '' '')"
  then obtain a b where ab: "x @ '' '' = a @ markerOpen @ b" by (auto simp: hasOpen_iff)
  show "hasOpen x"
  proof (cases b rule: rev_cases)
    case Nil
    with ab have "last (x @ '' '') = last (a @ markerOpen)" by simp
    then show ?thesis by (simp add: markerOpen_def)
  next
    case (snoc b' z)
    with ab have "x = a @ markerOpen @ b'"
      by (metis append.assoc butlast_snoc)
    then show ?thesis by (auto simp: hasOpen_iff)
  qed
qed (rule hasOpen_appendI1)

lemma hasOpen_space_Cons: "hasOpen (CHR '' '' # y) = hasOpen y"
  using hasOpen_no_bracket [of "'' ''" y] by simp

lemma markerTail_plain:
  "list_all is_dot inner \<Longrightarrow> CHR '']'' \<notin> set inner \<Longrightarrow>
   markerTail (inner @ CHR '']'' # post) = Some (inner, post)"
  by (induction inner) auto

lemma markerTail_some:
  "list_all is_dot inner \<Longrightarrow> markerTail (inner @ CHR '']'' # post) \<noteq> None"
  by (induction inner) auto

lemma matchMarkerAt_open:
  "matchMarkerAt (markerOpen @ r) = markerTail r"
  by (simp add: matchMarkerAt_def startsWith_append)

lemma findMarker_open:
  "markerTail r = Some (inner, post) \<Longrightarrow> findMarker (markerOpen @ r) = Some ([], inner, post)"
  using matchMarkerAt_open [of r] by (simp add: markerOpen_def)

lemma no_straddle:
  assumes "\<not> hasOpen (c # p)"
  shows "\<not> startsWith (c # p @ markerOpen @ r) markerOpen"
proof
  assume "startsWith (c # p @ markerOpen @ r) markerOpen"
  then obtain q where q: "(c # p) @ markerOpen @ r = markerOpen @ q"
    by (auto simp: startsWith_iff)
  show False
  proof (cases "length markerOpen \<le> length (c # p)")
    case True
    with q have "take (length markerOpen) (c # p) = markerOpen"
      by (metis append_eq_conv_conj take_append take_all_iff)
    then have "startsWith (c # p) markerOpen" by (simp add: startsWith_def)
    with assms show False by simp
  next
    case False
    then have n: "length (c # p) < length markerOpen" by simp
    have "((c # p) @ markerOpen @ r) ! length (c # p) = (markerOpen @ r) ! 0"
      using nth_append_length_plus [of "c # p" "markerOpen @ r" 0] by simp
    then have "((c # p) @ markerOpen @ r) ! length (c # p) = CHR ''[''"
      by (simp add: markerOpen_def)
    with q have "(markerOpen @ q) ! length (c # p) = CHR ''[''" by simp
    with n have "markerOpen ! length (c # p) = CHR ''[''" by (simp add: nth_append)
    moreover have "markerOpen ! length (c # p) \<in> set (tl markerOpen)"
      using n by (metis Suc_less_eq length_Cons length_tl nth_mem nth_tl
          list.size(3) not_less_zero list.exhaust_sel diff_Suc_1)
    ultimately show False by (simp add: markerOpen_def)
  qed
qed

lemma findMarker_after_plain:
  assumes "\<not> hasOpen pre" and "findMarker (markerOpen @ r) = Some ([], inner, post)"
  shows "findMarker (pre @ markerOpen @ r) = Some (pre, inner, post)"
  using assms(1)
proof (induction pre)
  case Nil
  with assms(2) show ?case by simp
next
  case (Cons c p)
  then have "\<not> hasOpen p" by simp
  with Cons have "findMarker (p @ markerOpen @ r) = Some (p, inner, post)" by simp
  moreover have "matchMarkerAt (c # p @ markerOpen @ r) = None"
    using no_straddle [OF Cons.prems] by (simp add: matchMarkerAt_def)
  ultimately show ?case by simp
qed

lemma findMarker_none: "\<not> hasOpen s \<Longrightarrow> findMarker s = None"
  by (induction s) (auto simp: matchMarkerAt_def)


subsection \<open>One call of the mutator\<close>

lemma separator_cases: "separator s = [] \<or> separator s = '' ''"
  by (simp add: separator_def)

lemma hasOpen_separator: "hasOpen (s @ separator s) = hasOpen s"
  using separator_cases [of s] by (auto simp: hasOpen_snoc_space)

lemma appendEntry_Nil: "appendEntry [] t = '' '' @ t @ ''; ''"
  by (simp add: appendEntry_def)

lemma first_append:
  assumes "\<not> hasOpen ln"
  shows "\<exists>pre post. appendTimeLogToLine ln t = pre @ markerOpen @ appendEntry [] t @ '']'' @ post \<and>
      \<not> hasOpen pre \<and> \<not> hasOpen post"
proof (cases "findFirstInlineDataviewIndex ln = -1")
  case True
  then have "appendTimeLogToLine ln t =
      (ln @ separator ln) @ markerOpen @ appendEntry [] t @ '']'' @ []"
    using findMarker_none [OF assms]
    by (simp add: appendTimeLogToLine_def appendEntry_Nil markerOpen_def)
  moreover have "\<not> hasOpen (ln @ separator ln)" using assms by (simp add: hasOpen_separator)
  ultimately show ?thesis by (metis hasOpen.simps(1))
next
  case False
  then obtain idx where idx: "findFirstInlineDataviewIndex ln = int idx" "idx < length ln"
    by (rule findFirstInlineDataviewIndex_found)
  define sb where "sb = (if length (take idx ln) > 0 \<and> \<not> endsWithSpace (take idx ln)
    then '' '' else [])"
  define sa where "sa = (if length (drop idx ln) > 0 \<and> \<not> startsWithSpace (drop idx ln)
    then '' '' else [])"
  have "appendTimeLogToLine ln t =
      (take idx ln @ sb) @ markerOpen @ appendEntry [] t @ '']'' @ (sa @ drop idx ln)"
    using findMarker_none [OF assms] False idx
    by (auto simp: appendTimeLogToLine_def insertBeforeInlineDataview_def Let_def
        appendEntry_Nil markerOpen_def sb_def sa_def)
  moreover have "\<not> hasOpen (take idx ln @ sb)"
  proof -
    have "hasOpen (take idx ln @ sb) = hasOpen (take idx ln)"
      by (simp add: sb_def hasOpen_snoc_space del: hasOpen.simps)
    with assms hasOpen_take [of idx ln] show ?thesis by blast
  qed
  moreover have "\<not> hasOpen (sa @ drop idx ln)"
  proof -
    have "hasOpen (sa @ drop idx ln) = hasOpen (drop idx ln)"
      by (simp add: sa_def hasOpen_space_Cons del: hasOpen.simps)
    with assms hasOpen_drop [of idx ln] show ?thesis by blast
  qed
  ultimately show ?thesis by blast
qed

lemma appendTimeLogToLine_marker:
  "findMarker ln = Some (b, i, a) \<Longrightarrow>
   appendTimeLogToLine ln t = b @ markerOpen @ appendEntry i t @ '']'' @ a"
  by (simp add: appendTimeLogToLine_def appendEntry_def markerOpen_def Let_def)

lemma markerChar_appendEntry:
  assumes "list_all markerChar inner" "list_all plainChar t"
  shows "list_all markerChar (appendEntry inner t)"
proof -
  have "list_all markerChar (trim inner)"
    using assms(1) set_trim [of inner] by (auto simp: list_all_iff)
  moreover have "list_all markerChar t"
    using assms(2) by (auto simp: list_all_iff plainChar_def markerChar_def)
  moreover have "markerChar (CHR '' '')" "markerChar (CHR '';'')"
    by (simp_all add: markerChar_def is_dot_def LF_def CR_def)
  ultimately show ?thesis by (simp add: appendEntry_def)
qed

lemma findMarker_written:
  assumes "\<not> hasOpen pre" "list_all markerChar inner"
  shows "findMarker (pre @ markerOpen @ inner @ '']'' @ post) = Some (pre, inner, post)"
proof -
  have "list_all is_dot inner" "CHR '']'' \<notin> set inner"
    using assms(2) by (auto simp: list_all_iff markerChar_def)
  then have "markerTail (inner @ '']'' @ post) = Some (inner, post)"
    using markerTail_plain [of inner post] by simp
  then have "findMarker (markerOpen @ inner @ '']'' @ post) = Some ([], inner, post)"
    by (rule findMarker_open)
  with assms(1) show ?thesis by (rule findMarker_after_plain)
qed

lemma hasOpen_written:
  assumes "list_all markerChar inner" "\<not> hasOpen post"
  shows "\<not> hasOpen (inner @ '']'' @ post)"
proof -
  have "CHR ''['' \<notin> set (inner @ '']'')"
    using assms(1) by (auto simp: list_all_iff markerChar_def)
  from hasOpen_no_bracket [OF this, of post] assms(2) show ?thesis by simp
qed

subsection \<open>Several calls\<close>

lemma mutateAll_written:
  assumes "\<not> hasOpen pre" "list_all plainEntry ts" "list_all markerChar inner" "closedInner inner"
  shows "\<exists>inner'. mutateAll ts (pre @ markerOpen @ inner @ '']'' @ post) =
        pre @ markerOpen @ inner' @ '']'' @ post \<and>
      list_all markerChar inner' \<and> closedInner inner' \<and>
      timeLogEntries (trim inner') = timeLogEntries (trim inner) @ ts"
  using assms(2-4)
proof (induction ts arbitrary: inner)
  case Nil
  then show ?case by (simp add: mutateAll_def)
next
  case (Cons t ts)
  let ?l = "pre @ markerOpen @ inner @ '']'' @ post"
  from Cons.prems have t: "plainEntry t" "list_all plainEntry ts" by simp_all
  have "findMarker ?l = Some (pre, inner, post)"
    using assms(1) Cons.prems(2) by (rule findMarker_written)
  then have step: "appendTimeLogToLine ?l t = pre @ markerOpen @ appendEntry inner t @ '']'' @ post"
    by (rule appendTimeLogToLine_marker)
  have mc: "list_all markerChar (appendEntry inner t)"
    using Cons.prems(2) t(1) by (auto intro: markerChar_appendEntry simp: plainEntry_def)
  have cl: "closedInner (appendEntry inner t)" using t(1) by (rule closed_appendEntry)
  from Cons.IH [OF t(2) mc cl] obtain inner' where
    "mutateAll ts (pre @ markerOpen @ appendEntry inner t @ '']'' @ post) =
        pre @ markerOpen @ inner' @ '']'' @ post"
    "list_all markerChar inner'" "closedInner inner'"
    "timeLogEntries (trim inner') = timeLogEntries (trim (appendEntry inner t)) @ ts"
    by blast
  moreover have "timeLogEntries (trim (appendEntry inner t)) = timeLogEntries (trim inner) @ [t]"
    using t(1) Cons.prems(3) by (rule entries_appendEntry)
  ultimately show ?case using step by (auto simp: mutateAll_def)
qed

lemma mutateAll_plain:
  assumes "\<not> hasOpen ln" "ts \<noteq> []" "list_all plainEntry ts"
  shows "\<exists>pre inner post. mutateAll ts ln = pre @ markerOpen @ inner @ '']'' @ post \<and>
      \<not> hasOpen pre \<and> \<not> hasOpen post \<and> list_all markerChar inner \<and> closedInner inner \<and>
      timeLogEntries (trim inner) = ts"
proof -
  from assms(2,3) obtain t ts' where ts: "ts = t # ts'" "plainEntry t" "list_all plainEntry ts'"
    by (cases ts) auto
  from first_append [OF assms(1), of t] obtain pre post where
    f: "appendTimeLogToLine ln t = pre @ markerOpen @ appendEntry [] t @ '']'' @ post"
      "\<not> hasOpen pre" "\<not> hasOpen post" by blast
  have mc: "list_all markerChar (appendEntry [] t)"
    using ts(2) by (auto intro: markerChar_appendEntry simp: plainEntry_def)
  have cl: "closedInner (appendEntry [] t)" using ts(2) by (rule closed_appendEntry)
  have e: "timeLogEntries (trim (appendEntry [] t)) = [t]"
    using entries_appendEntry [OF ts(2), of "[]"] by (simp add: closedInner_def)
  from mutateAll_written [OF f(2) ts(3) mc cl, of post] obtain inner' where
    "mutateAll ts' (pre @ markerOpen @ appendEntry [] t @ '']'' @ post) =
        pre @ markerOpen @ inner' @ '']'' @ post"
    "list_all markerChar inner'" "closedInner inner'"
    "timeLogEntries (trim inner') = timeLogEntries (trim (appendEntry [] t)) @ ts'"
    by blast
  with f e ts(1) show ?thesis by (auto simp: mutateAll_def)
qed


subsection \<open>The formatted time is a plain entry\<close>

lemma digitChar_digit: "d < 10 \<Longrightarrow> is_digit (digitChar d)"
proof -
  assume "d < 10"
  then have "d \<in> {0, 1, 2, 3, 4, 5, 6, 7, 8, 9}" by auto
  then show ?thesis by (auto simp: digitChar_def is_digit_def)
qed

lemma showNat_digits: "list_all is_digit (showNat n)"
proof (induction n rule: showNat.induct)
  case (1 n)
  show ?case
  proof (cases "n < 10")
    case True
    then show ?thesis by (subst showNat.simps) (simp add: digitChar_digit)
  next
    case False
    with 1 show ?thesis by (subst showNat.simps) (simp add: digitChar_digit)
  qed
qed

lemma showNat_nonempty: "showNat n \<noteq> []"
  by (subst showNat.simps) simp

lemma padStart2_digits:
  assumes "list_all is_digit s"
  shows "list_all is_digit (padStart2 s)"
proof -
  have "is_digit (CHR ''0'')" by (simp add: is_digit_def)
  then have "list_all is_digit (replicate (2 - length s) (CHR ''0''))"
    by (simp add: list_all_iff)
  with assms show ?thesis by (simp add: padStart2_def)
qed

lemma padStart2_nonempty: "s \<noteq> [] \<Longrightarrow> padStart2 s \<noteq> []"
  by (simp add: padStart2_def)

lemma digit_plain: "is_digit c \<Longrightarrow> plainChar c \<and> \<not> is_space c"
  by (auto simp: is_digit_def plainChar_def is_space_def is_dot_def LF_def CR_def)

lemma digits_plain: "list_all is_digit s \<Longrightarrow> list_all plainChar s"
  by (auto simp: list_all_iff digit_plain)

lemma getCurrentFormattedTime_plain: "plainEntry (getCurrentFormattedTime now)"
proof -
  define y where "y = showNat (fullYear now)"
  define mo where "mo = padStart2 (showNat (month now + 1))"
  define d where "d = padStart2 (showNat (date now))"
  define h where "h = padStart2 (showNat (hours now))"
  define mi where "mi = padStart2 (showNat (minutes now))"
  have dg: "list_all is_digit y" "list_all is_digit mo" "list_all is_digit d"
    "list_all is_digit h" "list_all is_digit mi"
    by (simp_all add: y_def mo_def d_def h_def mi_def showNat_digits padStart2_digits)
  have ne: "y \<noteq> []" "mi \<noteq> []"
    by (simp_all add: y_def mi_def showNat_nonempty padStart2_nonempty)
  have t: "getCurrentFormattedTime now = y @ ''-'' @ mo @ ''-'' @ d @ '' -'' @ h @ '':'' @ mi"
    by (simp add: getCurrentFormattedTime_def y_def mo_def d_def h_def mi_def)
  have pc: "list_all plainChar (getCurrentFormattedTime now)"
    unfolding t using dg [THEN digits_plain]
    by (simp add: plainChar_def is_dot_def LF_def CR_def)
  have "is_digit (hd y)" "is_digit (last mi)"
    using dg ne by (auto simp: list_all_iff)
  then have "\<not> is_space (hd (getCurrentFormattedTime now))"
    "\<not> is_space (last (getCurrentFormattedTime now))"
    unfolding t using ne by (simp_all add: digit_plain)
  with ne have "trim (getCurrentFormattedTime now) = getCurrentFormattedTime now"
    by (intro trim_fixed) (simp_all add: t)
  with pc ne show ?thesis by (simp add: plainEntry_def t)
qed


text \<open>
  C3 (amended). Let a line contain no open token \<^verbatim>\<open>[time-logs::\<close> and let the mutator be
  called once for each of N plain timestamps, N at least 1. Then the resulting line
  contains one marker, found at its place by the marker grammar, with no open token
  before it or after its open token, and its entries are exactly the N timestamps in call
  order. One more call keeps the text around the marker, makes the inner text the trimmed
  existing text, a space, the new entry, the delimiter and a space, and so keeps the prior
  entries in their order with the new one last.
\<close>

theorem mutator_appends_in_order:
  assumes "\<not> hasOpen ln" and "ts \<noteq> []" and "list_all plainEntry ts" and "plainEntry u"
  shows "\<exists>pre inner post.
      mutateAll ts ln = pre @ markerOpen @ inner @ '']'' @ post \<and>
      findMarker (mutateAll ts ln) = Some (pre, inner, post) \<and>
      \<not> hasOpen pre \<and> \<not> hasOpen (inner @ '']'' @ post) \<and>
      markerEntries (mutateAll ts ln) = Some ts \<and>
      appendTimeLogToLine (mutateAll ts ln) u =
        pre @ markerOpen @ appendEntry inner u @ '']'' @ post \<and>
      markerEntries (appendTimeLogToLine (mutateAll ts ln) u) = Some (ts @ [u])"
proof -
  from mutateAll_plain [OF assms(1-3)] obtain pre inner post where
    r: "mutateAll ts ln = pre @ markerOpen @ inner @ '']'' @ post"
    and p: "\<not> hasOpen pre" "\<not> hasOpen post"
    and i: "list_all markerChar inner" "closedInner inner" "timeLogEntries (trim inner) = ts"
    by blast
  have f: "findMarker (mutateAll ts ln) = Some (pre, inner, post)"
    unfolding r using p(1) i(1) by (rule findMarker_written)
  have a: "appendTimeLogToLine (mutateAll ts ln) u =
      pre @ markerOpen @ appendEntry inner u @ '']'' @ post"
    using f by (rule appendTimeLogToLine_marker)
  have "list_all markerChar (appendEntry inner u)"
    using i(1) assms(4) by (auto intro: markerChar_appendEntry simp: plainEntry_def)
  with p(1) have "findMarker (pre @ markerOpen @ appendEntry inner u @ '']'' @ post) =
      Some (pre, appendEntry inner u, post)"
    by (rule findMarker_written)
  moreover have "timeLogEntries (trim (appendEntry inner u)) = ts @ [u]"
    using entries_appendEntry [OF assms(4) i(2)] i(3) by simp
  ultimately have "markerEntries (appendTimeLogToLine (mutateAll ts ln) u) = Some (ts @ [u])"
    by (simp add: a markerEntries_def)
  moreover have "markerEntries (mutateAll ts ln) = Some ts"
    using f i(3) by (simp add: markerEntries_def)
  moreover have "\<not> hasOpen (inner @ '']'' @ post)" using i(1) p(2) by (rule hasOpen_written)
  ultimately show ?thesis using r f p(1) a by blast
qed

theorem mutator_appends_in_order_witness:
  "\<not> hasOpen ''- [ ] Write report'' \<and>
   list_all plainEntry [''2025-08-28 -14:32'', ''2025-08-28 -15:00''] \<and>
   plainEntry ''2025-08-28 -16:10'' \<and>
   mutateAll [''2025-08-28 -14:32'', ''2025-08-28 -15:00''] ''- [ ] Write report'' =
     ''- [ ] Write report [time-logs::2025-08-28 -14:32; 2025-08-28 -15:00; ]'' \<and>
   markerEntries (mutateAll [''2025-08-28 -14:32'', ''2025-08-28 -15:00''] ''- [ ] Write report'') =
     Some [''2025-08-28 -14:32'', ''2025-08-28 -15:00''] \<and>
   markerEntries (appendTimeLogToLine
       (mutateAll [''2025-08-28 -14:32'', ''2025-08-28 -15:00''] ''- [ ] Write report'')
       ''2025-08-28 -16:10'') =
     Some [''2025-08-28 -14:32'', ''2025-08-28 -15:00'', ''2025-08-28 -16:10'']"
proof -
  have h1: "\<not> hasOpen ''- [ ] Write report''" by code_simp
  have h2: "[''2025-08-28 -14:32'', ''2025-08-28 -15:00''] \<noteq> []" by simp
  have h3: "list_all plainEntry [''2025-08-28 -14:32'', ''2025-08-28 -15:00'']" by code_simp
  have h4: "plainEntry ''2025-08-28 -16:10''" by code_simp
  have m: "mutateAll [''2025-08-28 -14:32'', ''2025-08-28 -15:00''] ''- [ ] Write report'' =
     ''- [ ] Write report [time-logs::2025-08-28 -14:32; 2025-08-28 -15:00; ]''"
    by code_simp
  from mutator_appends_in_order [OF h1 h2 h3 h4] h1 h3 h4 m show ?thesis by auto
qed

text \<open>
  C3 as stated fails for a line that has no marker but an open token without its close
  token: the marker the grammar finds after the call starts at the old open token, and
  its only entry is not the timestamp.
\<close>

theorem mutator_dangling_open_counterexample:
  "findMarker ''[time-logs::x'' = None \<and> plainEntry ''2025-08-28 -14:32'' \<and>
   appendTimeLogToLine ''[time-logs::x'' ''2025-08-28 -14:32'' =
     ''[time-logs::x [time-logs:: 2025-08-28 -14:32; ]'' \<and>
   markerEntries (appendTimeLogToLine ''[time-logs::x'' ''2025-08-28 -14:32'') =
     Some [''x [time-logs:: 2025-08-28 -14:32'']"
  by code_simp

section \<open>Auto-detection of task completion\<close>

subsection \<open>The task line predicates\<close>

lemma matchSeq_append_right:
  "matchSeq ps s = Some r \<Longrightarrow> matchSeq ps (s @ x) = Some (r @ x)"
  by (induction ps s rule: matchSeq.induct) (auto split: if_splits)

lemma matchSeq_Cons_Some:
  "matchSeq (p # ps) s = Some r \<longleftrightarrow> (\<exists>c cs. s = c # cs \<and> p c \<and> matchSeq ps cs = Some r)"
  by (cases s) auto

lemma matchSeq_Cons_nonempty: "matchSeq (p # ps) s = Some r \<Longrightarrow> s \<noteq> []"
  by (cases s) auto

lemma dropWhile_append_nonempty:
  "dropWhile P s \<noteq> [] \<Longrightarrow> dropWhile P (s @ x) = dropWhile P s @ x"
  by (induction s) auto

lemma isCheckedTaskLine_append:
  assumes "isCheckedTaskLine l"
  shows "isCheckedTaskLine (l @ x)"
proof -
  let ?p1 = "[is_chr (CHR ''-''), is_space, is_chr (CHR ''['')]"
  let ?p2 = "[\<lambda>c. c = CHR ''x'' \<or> c = CHR ''X'']"
  let ?p3 = "[is_chr (CHR '']''), is_space]"
  from assms obtain r1 r2 r3 where
    m1: "matchSeq ?p1 (dropWhile is_space l) = Some r1" and
    m2: "matchSeq ?p2 (dropWhile is_space r1) = Some r2" and
    m3: "matchSeq ?p3 (dropWhile is_space r2) = Some r3"
    unfolding isCheckedTaskLine_def by (auto split: option.splits)
  have d1: "dropWhile is_space (l @ x) = dropWhile is_space l @ x"
    using matchSeq_Cons_nonempty [OF m1] by (rule dropWhile_append_nonempty)
  have d2: "dropWhile is_space (r1 @ x) = dropWhile is_space r1 @ x"
    using matchSeq_Cons_nonempty [OF m2] by (rule dropWhile_append_nonempty)
  have d3: "dropWhile is_space (r2 @ x) = dropWhile is_space r2 @ x"
    using matchSeq_Cons_nonempty [OF m3] by (rule dropWhile_append_nonempty)
  show ?thesis
    unfolding isCheckedTaskLine_def d1 matchSeq_append_right [OF m1] option.case d2
      matchSeq_append_right [OF m2] d3 matchSeq_append_right [OF m3]
    by simp
qed

lemma unchecked_not_checked:
  assumes "isUncheckedTaskLine l"
  shows "\<not> isCheckedTaskLine l"
proof -
  from assms obtain r where
    "matchSeq [is_chr (CHR ''-''), is_space, is_chr (CHR ''[''), is_space, is_chr (CHR '']''),
        is_space] (dropWhile is_space l) = Some r"
    unfolding isUncheckedTaskLine_def by auto
  then obtain c1 c2 c3 c4 c6 where
    l: "dropWhile is_space l = c1 # c2 # c3 # c4 # CHR '']'' # c6 # r" and c4: "is_space c4"
    by (auto simp: matchSeq_Cons_Some is_chr_def)
  have "dropWhile is_space (c4 # CHR '']'' # c6 # r) = CHR '']'' # c6 # r"
    using c4 by (simp add: is_space_def)
  then show ?thesis
    unfolding isCheckedTaskLine_def l
    by (auto simp: matchSeq_Cons_Some is_chr_def split: option.splits)
qed


subsection \<open>The loop\<close>

text \<open>The lines after the rounds for the indices below \<open>m\<close>.\<close>

lemma triggers_distinct:
  "triggers prevLines currLines i \<Longrightarrow> prevLines ! i \<noteq> currLines ! i"
  using unchecked_not_checked by (auto simp: triggers_def)

lemma doneTaskStep_eval:
  assumes "cur ! i = currLines ! i" "i < length prevLines" "i < length currLines"
  shows "doneTaskStep clock prevLines i (cur, ch) =
    (if triggers prevLines currLines i
     then (cur[i := appendTimeLogToLine (currLines ! i) (getCurrentFormattedTime (clock i))], True)
     else (cur, ch))"
proof (cases "triggers prevLines currLines i")
  case True
  with triggers_distinct [OF True] assms show ?thesis
    by (simp add: doneTaskStep_def triggers_def)
next
  case False
  with assms show ?thesis
    by (auto simp: doneTaskStep_def triggers_def Let_def)
qed

lemma doneTaskLoop_upto:
  assumes "m \<le> length prevLines" "m \<le> length currLines"
  shows "fold (doneTaskStep clock prevLines) [0..<m] (currLines, False) =
    (map (\<lambda>i. if i < m \<and> triggers prevLines currLines i
              then appendTimeLogToLine (currLines ! i) (getCurrentFormattedTime (clock i))
              else currLines ! i) [0..<length currLines],
     \<exists>i<m. triggers prevLines currLines i)"
  using assms
proof (induction m)
  case 0
  then show ?case by (simp add: map_nth)
next
  case (Suc m)
  let ?f = "\<lambda>i. appendTimeLogToLine (currLines ! i) (getCurrentFormattedTime (clock i))"
  let ?G = "\<lambda>k. map (\<lambda>i. if i < k \<and> triggers prevLines currLines i then ?f i
              else currLines ! i) [0..<length currLines]"
  from Suc have IH: "fold (doneTaskStep clock prevLines) [0..<m] (currLines, False) =
      (?G m, \<exists>i<m. triggers prevLines currLines i)" by simp
  from Suc.prems have m: "m < length prevLines" "m < length currLines" by simp_all
  have at_m: "?G m ! m = currLines ! m" using m by simp
  have ex: "(\<exists>i<Suc m. triggers prevLines currLines i) \<longleftrightarrow>
      (\<exists>i<m. triggers prevLines currLines i) \<or> triggers prevLines currLines m"
    by (auto simp: less_Suc_eq)
  show ?case
  proof (cases "triggers prevLines currLines m")
    case True
    have "?G (Suc m) = (?G m)[m := ?f m]"
    proof (rule nth_equalityI)
      show "length (?G (Suc m)) = length ((?G m)[m := ?f m])" by simp
    next
      fix i assume "i < length (?G (Suc m))"
      then have i: "i < length currLines" by simp
      show "?G (Suc m) ! i = (?G m)[m := ?f m] ! i"
      proof (cases "i = m")
        case True
        with \<open>triggers prevLines currLines m\<close> m show ?thesis by simp
      next
        case False
        with i show ?thesis by (simp add: less_Suc_eq)
      qed
    qed
    moreover have "doneTaskStep clock prevLines m (?G m, \<exists>i<m. triggers prevLines currLines i) =
        ((?G m)[m := ?f m], True)"
      using True doneTaskStep_eval [OF at_m m] by simp
    ultimately show ?thesis using True IH ex by simp
  next
    case False
    have "?G (Suc m) = ?G m"
    proof (rule nth_equalityI)
      show "length (?G (Suc m)) = length (?G m)" by simp
    next
      fix i assume "i < length (?G (Suc m))"
      then have i: "i < length currLines" by simp
      show "?G (Suc m) ! i = ?G m ! i"
      proof (cases "i = m")
        case True
        with \<open>\<not> triggers prevLines currLines m\<close> i show ?thesis by simp
      next
        case False
        with i show ?thesis by (simp add: less_Suc_eq)
      qed
    qed
    moreover have "doneTaskStep clock prevLines m (?G m, \<exists>i<m. triggers prevLines currLines i) =
        (?G m, \<exists>i<m. triggers prevLines currLines i)"
      using False doneTaskStep_eval [OF at_m m] by simp
    ultimately show ?thesis using False IH ex by simp
  qed
qed

lemma anyTrigger_iff:
  "anyTrigger prevLines currLines \<longleftrightarrow> (\<exists>i. triggers prevLines currLines i)"
  by (auto simp: anyTrigger_def list_ex_iff triggers_def)

lemma doneTaskLoop_char:
  "doneTaskLoop clock prevLines currLines =
     (expectedLines clock prevLines currLines, anyTrigger prevLines currLines)"
proof -
  let ?m = "min (length prevLines) (length currLines)"
  have t: "i < ?m \<and> triggers prevLines currLines i \<longleftrightarrow> triggers prevLines currLines i" for i
    by (auto simp: triggers_def)
  have "doneTaskLoop clock prevLines currLines =
      fold (doneTaskStep clock prevLines) [0..<?m] (currLines, False)"
    by (simp add: doneTaskLoop_def)
  also have "\<dots> =
      (map (\<lambda>i. if i < ?m \<and> triggers prevLines currLines i
              then appendTimeLogToLine (currLines ! i) (getCurrentFormattedTime (clock i))
              else currLines ! i) [0..<length currLines],
       \<exists>i<?m. triggers prevLines currLines i)"
    by (rule doneTaskLoop_upto) simp_all
  also have "\<dots> = (expectedLines clock prevLines currLines, \<exists>i<?m. triggers prevLines currLines i)"
    unfolding t expectedLines_def by (rule refl)
  also have "(\<exists>i<?m. triggers prevLines currLines i) = anyTrigger prevLines currLines"
    using t by (auto simp: anyTrigger_iff)
  finally show ?thesis .
qed

lemma addTimeLogForDoneTasks_char:
  "addTimeLogForDoneTasks clock previousContent newContent =
     (if anyTrigger (splitLines previousContent) (splitLines newContent)
      then join [LF] (expectedLines clock (splitLines previousContent) (splitLines newContent))
      else newContent)"
  by (simp add: addTimeLogForDoneTasks_def doneTaskLoop_char)

subsection \<open>Lines and their separators\<close>

lemma consHead_set: "l \<in> set (consHead c ls) \<Longrightarrow> l \<in> set ls \<or> (\<exists>l'. l = c # l' \<and> (l' \<in> set ls \<or> l' = []))"
  by (cases ls) auto

lemma splitLines_noLF: "l \<in> set (splitLines s) \<Longrightarrow> LF \<notin> set l"
proof (induction s arbitrary: l rule: splitLines.induct)
  case 1
  then show ?case by simp
next
  case (2 c)
  then show ?case by (auto split: if_splits)
next
  case (3 c d cs)
  show ?case
  proof (cases "c = LF")
    case True
    with 3 show ?thesis by auto
  next
    case False
    show ?thesis
    proof (cases "c = CR \<and> d = LF")
      case True
      with False 3 show ?thesis by auto
    next
      case nocr: False
      with False 3(4) have "l \<in> set (consHead c (splitLines (d # cs)))" by auto
      from consHead_set [OF this] 3(3) [OF False nocr] False show ?thesis by auto
    qed
  qed
qed

lemma splitLines_nonempty [simp]: "splitLines s \<noteq> []"
  by (induction s rule: splitLines.induct) (auto elim: consHead.elims)

lemma splitLines_LF: "splitLines (LF # s) = [] # splitLines s"
  by (cases s) simp_all

lemma splitLines_Cons:
  "c \<noteq> LF \<Longrightarrow> s \<noteq> [] \<Longrightarrow> \<not> (c = CR \<and> hd s = LF) \<Longrightarrow>
   splitLines (c # s) = consHead c (splitLines s)"
  by (cases s) auto

lemma CR_not_LF [simp]: "CR \<noteq> LF" "LF \<noteq> CR"
  by (simp_all add: CR_def LF_def)

lemma splitLines_line_LF:
  "LF \<notin> set x \<Longrightarrow> splitLines (x @ LF # r) = chomp x # splitLines r"
proof (induction x)
  case Nil
  then show ?case by (simp add: splitLines_LF chomp_def)
next
  case (Cons c x)
  then have c: "c \<noteq> LF" and x: "LF \<notin> set x" by auto
  note IH = Cons.IH [OF x]
  show ?case
  proof (cases x)
    case Nil
    show ?thesis
    proof (cases "c = CR")
      case True
      with Nil show ?thesis by (simp add: chomp_def)
    next
      case False
      with Nil c show ?thesis by (simp add: splitLines_LF chomp_def)
    qed
  next
    case (Cons d x')
    with x have "d \<noteq> LF" by auto
    with c Cons have "splitLines (c # x @ LF # r) = consHead c (splitLines (x @ LF # r))"
      by simp
    also have "\<dots> = (c # chomp x) # splitLines r"
      using IH by simp
    also have "c # chomp x = chomp (c # x)"
      using Cons by (simp add: chomp_def)
    finally show ?thesis by simp
  qed
qed

lemma splitLines_plain: "LF \<notin> set x \<Longrightarrow> splitLines x = [x]"
proof (induction x rule: splitLines.induct)
  case 1
  then show ?case by simp
next
  case (2 c)
  then show ?case by simp
next
  case (3 c d cs)
  then show ?case by auto
qed

lemma splitLines_join:
  assumes "ls \<noteq> []" "\<forall>l \<in> set ls. LF \<notin> set l"
  shows "splitLines (join [LF] ls) = map chomp (butlast ls) @ [last ls]"
  using assms
proof (induction ls)
  case Nil
  then show ?case by simp
next
  case (Cons x ys)
  note IH = Cons.IH
  show ?case
  proof (cases ys)
    case Nil
    with Cons.prems show ?thesis by (simp add: splitLines_plain)
  next
    case (Cons y ys')
    with Cons.prems IH have "splitLines (join [LF] ys) = map chomp (butlast ys) @ [last ys]"
      by simp
    moreover have "join [LF] (x # ys) = x @ LF # join [LF] ys" using Cons by simp
    moreover have "LF \<notin> set x" using Cons.prems by simp
    ultimately show ?thesis using Cons by (simp add: splitLines_line_LF)
  qed
qed

subsection \<open>A logged line keeps its marker\<close>

lemma markerTail_snoc_CR: "markerTail s = None \<Longrightarrow> markerTail (s @ [CR]) = None"
  by (induction s) (auto simp: is_dot_def CR_def LF_def split: if_splits)

lemma startsWith_snoc_CR:
  assumes "startsWith (s @ [CR]) markerOpen"
  shows "\<exists>r. s = markerOpen @ r"
proof -
  from assms obtain r where r: "s @ [CR] = markerOpen @ r" by (auto simp: startsWith_iff)
  show ?thesis
  proof (cases r rule: rev_cases)
    case Nil
    with r have "last (s @ [CR]) = last markerOpen" by simp
    then show ?thesis by (simp add: markerOpen_def CR_def)
  next
    case (snoc r' z)
    with r have "s = markerOpen @ r'" by (metis append.assoc butlast_snoc)
    then show ?thesis by blast
  qed
qed

lemma matchMarkerAt_snoc_CR:
  assumes "matchMarkerAt s = None"
  shows "matchMarkerAt (s @ [CR]) = None"
proof (cases "startsWith (s @ [CR]) markerOpen")
  case False
  then show ?thesis by (simp add: matchMarkerAt_def)
next
  case True
  then obtain r where r: "s = markerOpen @ r" by (auto dest: startsWith_snoc_CR)
  with assms have "markerTail r = None" by (simp add: matchMarkerAt_open)
  then have "markerTail (r @ [CR]) = None" by (rule markerTail_snoc_CR)
  then show ?thesis using matchMarkerAt_open [of "r @ [CR]"] r by simp
qed

lemma matchMarkerAt_CR: "matchMarkerAt [CR] = None"
  by (simp add: matchMarkerAt_def startsWith_def markerOpen_def)

lemma findMarker_snoc_CR: "findMarker l = None \<Longrightarrow> findMarker (l @ [CR]) = None"
proof (induction l)
  case Nil
  then show ?case by (simp add: matchMarkerAt_CR)
next
  case (Cons c l)
  from Cons.prems have a: "matchMarkerAt (c # l) = None" "findMarker l = None"
    by (auto split: option.splits)
  from matchMarkerAt_snoc_CR [OF a(1)] Cons.IH [OF a(2)] show ?case by simp
qed

lemma chomp_cases: "chomp l = l \<or> l = chomp l @ [CR]"
  by (cases l rule: rev_cases) (auto simp: chomp_def)

lemma containsTimeLogs_chomp:
  assumes "containsTimeLogs l"
  shows "containsTimeLogs (chomp l)"
proof (rule ccontr)
  assume "\<not> containsTimeLogs (chomp l)"
  then have n: "findMarker (chomp l) = None" unfolding containsTimeLogs_def by blast
  from chomp_cases [of l] have "findMarker l = None"
  proof
    assume "chomp l = l"
    with n show ?thesis by simp
  next
    assume "l = chomp l @ [CR]"
    with findMarker_snoc_CR [OF n] show ?thesis by simp
  qed
  with assms show False unfolding containsTimeLogs_def by blast
qed

lemma isCheckedTaskLine_chomp: "isCheckedTaskLine (chomp l) \<Longrightarrow> isCheckedTaskLine l"
  using chomp_cases [of l] isCheckedTaskLine_append [of "chomp l" "[CR]"] by auto

lemma findMarker_exists:
  assumes "list_all is_dot inner"
  shows "findMarker (x @ markerOpen @ inner @ '']'' @ y) \<noteq> None"
proof (induction x)
  case Nil
  have "matchMarkerAt (markerOpen @ inner @ '']'' @ y) \<noteq> None"
    using markerTail_some [OF assms, of y] by (simp add: matchMarkerAt_open)
  then show ?case by (auto simp: markerOpen_def)
next
  case (Cons c x)
  then show ?case by (auto split: option.splits)
qed

lemma append_markerless_shape:
  assumes "findMarker ln = None"
  shows "\<exists>pre post. appendTimeLogToLine ln t = pre @ markerOpen @ appendEntry [] t @ '']'' @ post \<and>
      set pre \<union> set post \<subseteq> set ln \<union> {CHR '' ''}"
proof (cases "findFirstInlineDataviewIndex ln = -1")
  case True
  then have "appendTimeLogToLine ln t =
      (ln @ separator ln) @ markerOpen @ appendEntry [] t @ '']'' @ []"
    using assms by (simp add: appendTimeLogToLine_def appendEntry_Nil markerOpen_def)
  moreover have "set (ln @ separator ln) \<union> set [] \<subseteq> set ln \<union> {CHR '' ''}"
    using separator_cases [of ln] by auto
  ultimately show ?thesis by blast
next
  case False
  then obtain idx where idx: "findFirstInlineDataviewIndex ln = int idx" "idx < length ln"
    by (rule findFirstInlineDataviewIndex_found)
  define sb where "sb = (if length (take idx ln) > 0 \<and> \<not> endsWithSpace (take idx ln)
    then '' '' else [])"
  define sa where "sa = (if length (drop idx ln) > 0 \<and> \<not> startsWithSpace (drop idx ln)
    then '' '' else [])"
  have "appendTimeLogToLine ln t =
      (take idx ln @ sb) @ markerOpen @ appendEntry [] t @ '']'' @ (sa @ drop idx ln)"
    using assms False idx
    by (auto simp: appendTimeLogToLine_def insertBeforeInlineDataview_def Let_def
        appendEntry_Nil markerOpen_def sb_def sa_def)
  moreover have "set (take idx ln @ sb) \<union> set (sa @ drop idx ln) \<subseteq> set ln \<union> {CHR '' ''}"
    using set_take_subset [of idx ln] set_drop_subset [of idx ln]
    by (auto simp: sb_def sa_def)
  ultimately show ?thesis by blast
qed

lemma formatted_chars:
  "list_all is_dot (getCurrentFormattedTime now)" "LF \<notin> set (getCurrentFormattedTime now)"
  using getCurrentFormattedTime_plain [of now]
  by (auto simp: plainEntry_def list_all_iff plainChar_def is_dot_def)

lemma logged_line:
  assumes "findMarker ln = None" "LF \<notin> set ln"
  shows "containsTimeLogs (appendTimeLogToLine ln (getCurrentFormattedTime now))"
    and "LF \<notin> set (appendTimeLogToLine ln (getCurrentFormattedTime now))"
proof -
  let ?t = "getCurrentFormattedTime now"
  from append_markerless_shape [OF assms(1), of ?t] obtain pre post where
    s: "appendTimeLogToLine ln ?t = pre @ markerOpen @ appendEntry [] ?t @ '']'' @ post"
      "set pre \<union> set post \<subseteq> set ln \<union> {CHR '' ''}" by blast
  have d: "list_all is_dot (appendEntry [] ?t)"
    using formatted_chars(1) [of now]
    by (simp add: appendEntry_Nil is_dot_def LF_def CR_def)
  show "containsTimeLogs (appendTimeLogToLine ln ?t)"
    unfolding containsTimeLogs_def s(1) using d by (rule findMarker_exists)
  have "LF \<notin> set pre \<union> set post" using s(2) assms(2) by (auto simp: LF_def)
  moreover have "LF \<notin> set (appendEntry [] ?t)"
    using formatted_chars(2) [of now] by (simp add: appendEntry_Nil LF_def)
  ultimately show "LF \<notin> set (appendTimeLogToLine ln ?t)"
    unfolding s(1) by (simp add: markerOpen_def LF_def)
qed

subsection \<open>Running the transform again\<close>

lemma length_expectedLines [simp]:
  "length (expectedLines clock prevLines currLines) = length currLines"
  by (simp add: expectedLines_def)

lemma nth_expectedLines:
  "i < length currLines \<Longrightarrow>
   expectedLines clock prevLines currLines ! i =
     (if triggers prevLines currLines i
      then appendTimeLogToLine (currLines ! i) (getCurrentFormattedTime (clock i))
      else currLines ! i)"
  by (simp add: expectedLines_def)

lemma triggers_no_marker:
  "triggers prevLines currLines i \<Longrightarrow> findMarker (currLines ! i) = None"
  by (cases "findMarker (currLines ! i)") (auto simp: triggers_def containsTimeLogs_def)

lemma expectedLines_noLF:
  assumes "\<forall>l \<in> set currLines. LF \<notin> set l"
  shows "\<forall>l \<in> set (expectedLines clock prevLines currLines). LF \<notin> set l"
proof
  fix l assume "l \<in> set (expectedLines clock prevLines currLines)"
  then obtain i where i: "i < length currLines"
    "l = expectedLines clock prevLines currLines ! i"
    by (auto simp: in_set_conv_nth)
  from i(1) assms have n: "LF \<notin> set (currLines ! i)" by simp
  show "LF \<notin> set l"
  proof (cases "triggers prevLines currLines i")
    case True
    then have "findMarker (currLines ! i) = None" by (rule triggers_no_marker)
    from logged_line(2) [OF this n] True i show ?thesis by (simp add: nth_expectedLines)
  next
    case False
    with n i show ?thesis by (simp add: nth_expectedLines)
  qed
qed

lemma resplit_nth:
  assumes "i < length ls"
  shows "(map chomp (butlast ls) @ [last ls]) ! i = ls ! i \<or>
         (map chomp (butlast ls) @ [last ls]) ! i = chomp (ls ! i)"
proof (cases "i < length ls - 1")
  case True
  then show ?thesis by (simp add: nth_append nth_butlast)
next
  case False
  with assms have "i = length ls - 1" "ls \<noteq> []" by auto
  then show ?thesis by (simp add: nth_append last_conv_nth)
qed

lemma line_stays_quiet:
  assumes i: "i < length currLines" and n: "LF \<notin> set (currLines ! i)"
    and l': "l' = expectedLines clock prevLines currLines ! i \<or>
             l' = chomp (expectedLines clock prevLines currLines ! i)"
    and p: "i < length prevLines" "isUncheckedTaskLine (prevLines ! i)"
    and c: "isCheckedTaskLine l'"
  shows "containsTimeLogs l'"
proof (rule ccontr)
  assume q: "\<not> containsTimeLogs l'"
  let ?e = "expectedLines clock prevLines currLines ! i"
  from l' c have ce: "isCheckedTaskLine ?e" by (auto dest: isCheckedTaskLine_chomp)
  from l' q have qe: "\<not> containsTimeLogs ?e" by (auto dest: containsTimeLogs_chomp)
  show False
  proof (cases "triggers prevLines currLines i")
    case True
    then have "findMarker (currLines ! i) = None" by (rule triggers_no_marker)
    from logged_line(1) [OF this n] True i qe show False by (simp add: nth_expectedLines)
  next
    case False
    with i have "?e = currLines ! i" by (simp add: nth_expectedLines)
    with ce qe i p have "triggers prevLines currLines i" by (simp add: triggers_def)
    with False show False by simp
  qed
qed

lemma second_run_quiet:
  assumes "\<forall>l \<in> set currLines. LF \<notin> set l" "currLines \<noteq> []"
  shows "\<not> anyTrigger prevLines
    (splitLines (join [LF] (expectedLines clock prevLines currLines)))"
proof
  let ?E = "expectedLines clock prevLines currLines"
  let ?R = "map chomp (butlast ?E) @ [last ?E]"
  have ne: "?E \<noteq> []" using assms(2) by (metis length_expectedLines length_0_conv)
  have sp: "splitLines (join [LF] ?E) = ?R"
    using ne expectedLines_noLF [OF assms(1)] by (rule splitLines_join)
  have len: "length ?R = length currLines" using assms(2) by (cases currLines) simp_all
  assume "anyTrigger prevLines (splitLines (join [LF] ?E))"
  then obtain i where t: "triggers prevLines ?R i" by (auto simp: anyTrigger_iff sp)
  then have i: "i < length currLines" "i < length prevLines"
    "isUncheckedTaskLine (prevLines ! i)" "isCheckedTaskLine (?R ! i)"
    "\<not> containsTimeLogs (?R ! i)"
    unfolding triggers_def len by simp_all
  from i(1) assms(1) have n: "LF \<notin> set (currLines ! i)" by simp
  have "?R ! i = ?E ! i \<or> ?R ! i = chomp (?E ! i)"
    using i(1) by (intro resplit_nth) simp
  from line_stays_quiet [OF i(1) n this i(2,3,4)] i(5) show False by simp
qed

text \<open>
  C4. For every pair of snapshots the transform mutates line \<open>i\<close> exactly when \<open>i\<close> is below
  both line counts, the previous line \<open>i\<close> is an unchecked task line, the new line \<open>i\<close> is a
  checked task line and the new line \<open>i\<close> has no marker; every other line, among them
  every line that already has a marker, stays as it is. Running the transform again on
  the previous snapshot and the logged result changes nothing, whatever the clock shows.
\<close>

theorem auto_detection_rule_and_rerun:
  "doneTaskLoop clock prevLines currLines =
     (expectedLines clock prevLines currLines, anyTrigger prevLines currLines) \<and>
   length (fst (doneTaskLoop clock prevLines currLines)) = length currLines \<and>
   (\<forall>i<length currLines.
      fst (doneTaskLoop clock prevLines currLines) ! i \<noteq> currLines ! i \<longrightarrow>
      i < length prevLines \<and> isUncheckedTaskLine (prevLines ! i) \<and>
      isCheckedTaskLine (currLines ! i) \<and> \<not> containsTimeLogs (currLines ! i)) \<and>
   addTimeLogForDoneTasks clock' previousContent
       (addTimeLogForDoneTasks clock previousContent newContent) =
     addTimeLogForDoneTasks clock previousContent newContent"
proof -
  let ?p = "splitLines previousContent" and ?c = "splitLines newContent"
  have "addTimeLogForDoneTasks clock' previousContent
       (addTimeLogForDoneTasks clock previousContent newContent) =
     addTimeLogForDoneTasks clock previousContent newContent"
  proof (cases "anyTrigger ?p ?c")
    case False
    then show ?thesis by (simp add: addTimeLogForDoneTasks_char)
  next
    case True
    have "\<forall>l \<in> set ?c. LF \<notin> set l" by (simp add: splitLines_noLF)
    then have "\<not> anyTrigger ?p (splitLines (join [LF] (expectedLines clock ?p ?c)))"
      by (rule second_run_quiet) simp
    with True show ?thesis by (simp add: addTimeLogForDoneTasks_char)
  qed
  moreover have "\<forall>i<length currLines.
      expectedLines clock prevLines currLines ! i \<noteq> currLines ! i \<longrightarrow>
      i < length prevLines \<and> isUncheckedTaskLine (prevLines ! i) \<and>
      isCheckedTaskLine (currLines ! i) \<and> \<not> containsTimeLogs (currLines ! i)"
    by (auto simp: nth_expectedLines triggers_def split: if_splits)
  ultimately show ?thesis by (simp add: doneTaskLoop_char)
qed

theorem auto_detection_rule_and_rerun_witness:
  "addTimeLogForDoneTasks
     (\<lambda>i. \<lparr>fullYear = 2025, month = 7, date = 28, hours = 14, minutes = 32\<rparr>)
     ''- [ ] Pay bills'' ''- [x] Pay bills'' =
     ''- [x] Pay bills [time-logs:: 2025-08-28 -14:32; ]'' \<and>
   addTimeLogForDoneTasks
     (\<lambda>i. \<lparr>fullYear = 2025, month = 7, date = 28, hours = 15, minutes = 0\<rparr>)
     ''- [ ] Pay bills'' ''- [x] Pay bills [time-logs:: 2025-08-28 -14:32; ]'' =
     ''- [x] Pay bills [time-logs:: 2025-08-28 -14:32; ]''"
proof -
  have a: "addTimeLogForDoneTasks
     (\<lambda>i. \<lparr>fullYear = 2025, month = 7, date = 28, hours = 14, minutes = 32\<rparr>)
     ''- [ ] Pay bills'' ''- [x] Pay bills'' =
     ''- [x] Pay bills [time-logs:: 2025-08-28 -14:32; ]''"
    by code_simp
  from auto_detection_rule_and_rerun
    [of "\<lambda>i. \<lparr>fullYear = 2025, month = 7, date = 28, hours = 14, minutes = 32\<rparr>" "[]" "[]"
      "\<lambda>i. \<lparr>fullYear = 2025, month = 7, date = 28, hours = 15, minutes = 0\<rparr>"
      "''- [ ] Pay bills''" "''- [x] Pay bills''"]
  show ?thesis unfolding a by simp
qed

text \<open>
  C10. When no line triggers, the transform returns the new content itself. When a line
  triggers, it returns the lines of the new content, the triggered ones mutated, joined by
  single line feeds; no line contains a line feed, so the separators of the result are
  these line feeds, whatever separated the lines of the new content.
\<close>

theorem addTimeLogForDoneTasks_result:
  "addTimeLogForDoneTasks clock previousContent newContent =
     (if anyTrigger (splitLines previousContent) (splitLines newContent)
      then join [LF] (expectedLines clock (splitLines previousContent) (splitLines newContent))
      else newContent) \<and>
   list_all (\<lambda>l. LF \<notin> set l)
     (expectedLines clock (splitLines previousContent) (splitLines newContent))"
proof -
  have "\<forall>l \<in> set (splitLines newContent). LF \<notin> set l" by (simp add: splitLines_noLF)
  from expectedLines_noLF [OF this] show ?thesis
    by (simp add: addTimeLogForDoneTasks_char list_all_iff)
qed

theorem addTimeLogForDoneTasks_result_witness:
  "addTimeLogForDoneTasks
     (\<lambda>i. \<lparr>fullYear = 2025, month = 7, date = 28, hours = 14, minutes = 32\<rparr>)
     (''- [ ] a'' @ [CR, LF] @ ''b'') (''- [x] a'' @ [CR, LF] @ ''b'') =
     ''- [x] a [time-logs:: 2025-08-28 -14:32; ]'' @ [LF] @ ''b'' \<and>
   addTimeLogForDoneTasks
     (\<lambda>i. \<lparr>fullYear = 2025, month = 7, date = 28, hours = 14, minutes = 32\<rparr>)
     (''- [x] a'' @ [CR, LF] @ ''b'') (''- [x] a'' @ [CR, LF] @ ''b'') =
     ''- [x] a'' @ [CR, LF] @ ''b''"
proof -
  let ?clock = "\<lambda>i::nat. \<lparr>fullYear = 2025, month = 7, date = 28, hours = 14, minutes = 32\<rparr>"
  have t: "anyTrigger (splitLines (''- [ ] a'' @ [CR, LF] @ ''b''))
      (splitLines (''- [x] a'' @ [CR, LF] @ ''b''))"
    by code_simp
  have j: "join [LF] (expectedLines ?clock (splitLines (''- [ ] a'' @ [CR, LF] @ ''b''))
      (splitLines (''- [x] a'' @ [CR, LF] @ ''b''))) =
      ''- [x] a [time-logs:: 2025-08-28 -14:32; ]'' @ [LF] @ ''b''"
    by code_simp
  have n: "\<not> anyTrigger (splitLines (''- [x] a'' @ [CR, LF] @ ''b''))
      (splitLines (''- [x] a'' @ [CR, LF] @ ''b''))"
    by code_simp
  from addTimeLogForDoneTasks_result
      [of ?clock "''- [ ] a'' @ [CR, LF] @ ''b''" "''- [x] a'' @ [CR, LF] @ ''b''"]
    addTimeLogForDoneTasks_result
      [of ?clock "''- [x] a'' @ [CR, LF] @ ''b''" "''- [x] a'' @ [CR, LF] @ ''b''"]
  show ?thesis unfolding j using t n by simp
qed

end
